theory Spec2Isabelle
  imports Main "HOL-Library.Word" "HOL-Library.Multiset"
begin

section \<open>Constants, time values and elements\<close>

text \<open>
  The repository holds two generations of the timed map that the specification describes:
  package \<open>temap\<close> (the map, its \<open>element\<close>/\<open>expiryHeap\<close> file, its cleaner file and its
  \<open>Stats\<close> file) and the later single-file package \<open>main\<close> with the wake channel and the
  callback worker pool. Functions of the first carry the suffix \<open>_temap\<close>, functions of the
  second the suffix \<open>_main\<close>; code that is textually the same in both is embedded once.
\<close>

definition ElementDoesntExist :: int where
  "ElementDoesntExist = - 1"

definition ElementPermanent :: int where
  "ElementPermanent = 0"

text \<open>
  A \<open>time.Time\<close> is modelled by its distance from the Unix epoch in nanoseconds, as an
  unbounded integer. \<open>UnixNano\<close> is the conversion to \<open>int64\<close>, which wraps for instants
  outside the years 1678 to 2262; \<open>IsZero\<close> recognises the zero \<open>Time\<close>, January 1 of
  year 1, which lies 62135596800 seconds before the epoch. A \<open>time.Duration\<close> is an
  \<open>int64\<close> count of nanoseconds.
\<close>

type_synonym Time = int
type_synonym Duration = int

definition UnixNano :: "Time \<Rightarrow> int" where
  "UnixNano t = (t + 2 ^ 63) mod 2 ^ 64 - 2 ^ 63"

definition IsZero :: "Time \<Rightarrow> bool" where
  "IsZero t = (t = - 62135596800000000000)"

definition Add :: "Time \<Rightarrow> Duration \<Rightarrow> Time" where
  "Add t d = t + d"

text \<open>
  Elements are shared between the key map and the heap through pointers, and the heap
  writes the \<open>index\<close> field of the elements it moves. The model therefore keeps the
  elements in an explicit object store, a function from addresses to elements; the key
  map and the heap hold addresses.
\<close>

type_synonym addr = nat

record ('k, 'v) element =
  Key :: 'k
  Value :: 'v
  ExpiresAt :: int
  index :: int

datatype panic = IndexOutOfRange | NilFuncCall

section \<open>The expiry heap\<close>

text \<open>
  The heap is the slice of element pointers together with the object store.
  \<open>Less\<close>, \<open>Swap\<close>, \<open>Push\<close> and \<open>Pop\<close> are the methods of \<open>expiryHeap\<close>.
\<close>

type_synonym ('k, 'v) heap_state = "addr list \<times> (addr \<Rightarrow> ('k, 'v) element)"

definition Len :: "('k, 'v) heap_state \<Rightarrow> nat" where
  "Len hs = length (fst hs)"

definition Less :: "('k, 'v) heap_state \<Rightarrow> nat \<Rightarrow> nat \<Rightarrow> bool" where
  "Less hs i j = (ExpiresAt (snd hs (fst hs ! i)) < ExpiresAt (snd hs (fst hs ! j)))"

definition Swap :: "('k, 'v) heap_state \<Rightarrow> nat \<Rightarrow> nat \<Rightarrow> ('k, 'v) heap_state" where
  "Swap hs i j =
     (let h = (fst hs)[i := fst hs ! j, j := fst hs ! i];
          m1 = (snd hs)(h ! i := (snd hs (h ! i))\<lparr>index := int i\<rparr>);
          m2 = m1(h ! j := (m1 (h ! j))\<lparr>index := int j\<rparr>)
      in (h, m2))"

definition Push :: "('k, 'v) heap_state \<Rightarrow> addr \<Rightarrow> ('k, 'v) heap_state" where
  "Push hs a =
     (fst hs @ [a], (snd hs)(a := (snd hs a)\<lparr>index := int (length (fst hs))\<rparr>))"

text \<open>\<open>Pop\<close> is only called by \<open>container/heap\<close> on a non-empty slice.\<close>

definition Pop :: "('k, 'v) heap_state \<Rightarrow> ('k, 'v) heap_state \<times> addr" where
  "Pop hs =
     (let old = fst hs; n = length old; item = old ! (n - 1)
      in ((butlast old, (snd hs)(item := (snd hs item)\<lparr>index := - 1\<rparr>)), item))"

text \<open>
  The functions of Go's \<open>container/heap\<close> that the map calls. The loops \<open>up\<close> and \<open>down\<close>
  run on indices inside the slice, where Go's \<open>int\<close> arithmetic and the arithmetic of
  \<open>nat\<close> agree: \<open>(j - 1) / 2\<close> is \<open>0\<close> for \<open>j = 0\<close> in both. The entry points take the
  \<open>int\<close> index stored in an element and return \<open>Inl IndexOutOfRange\<close> on exactly the
  indices where the Go code reads outside the slice.
\<close>

function up :: "('k, 'v) heap_state \<Rightarrow> nat \<Rightarrow> ('k, 'v) heap_state" where
  "up hs j =
     (let i = (j - 1) div 2 in
      if i = j \<or> \<not> Less hs j i then hs else up (Swap hs i j) i)"
  by pat_completeness auto
termination
  by (relation "measure (\<lambda>(hs, j). j)") auto

function down_loop :: "('k, 'v) heap_state \<Rightarrow> nat \<Rightarrow> nat \<Rightarrow> ('k, 'v) heap_state \<times> nat" where
  "down_loop hs i n =
     (let j1 = 2 * i + 1 in
      if j1 \<ge> n then (hs, i)
      else
        let j = (if j1 + 1 < n \<and> Less hs (j1 + 1) j1 then j1 + 1 else j1) in
        if \<not> Less hs j i then (hs, i) else down_loop (Swap hs i j) j n)"
  by pat_completeness auto
termination
  by (relation "measure (\<lambda>(hs, i, n). n - i)") auto

declare up.simps [simp del]
declare down_loop.simps [simp del]

definition down :: "('k, 'v) heap_state \<Rightarrow> nat \<Rightarrow> nat \<Rightarrow> ('k, 'v) heap_state \<times> bool" where
  "down hs i0 n = (let (hs', i) = down_loop hs i0 n in (hs', i > i0))"

definition heap_Init :: "('k, 'v) heap_state \<Rightarrow> ('k, 'v) heap_state" where
  "heap_Init hs =
     (let n = Len hs in foldl (\<lambda>s i. fst (down s i n)) hs (rev [0 ..< n div 2]))"

definition heap_Push :: "('k, 'v) heap_state \<Rightarrow> addr \<Rightarrow> ('k, 'v) heap_state" where
  "heap_Push hs a = (let hs1 = Push hs a in up hs1 (Len hs1 - 1))"

definition heap_Pop :: "('k, 'v) heap_state \<Rightarrow> panic + ('k, 'v) heap_state \<times> addr" where
  "heap_Pop hs =
     (if Len hs = 0 then Inl IndexOutOfRange
      else let n = Len hs - 1; hs1 = Swap hs 0 n; hs2 = fst (down hs1 0 n) in Inr (Pop hs2))"

text \<open>
  \<open>heap.Remove(h, i)\<close> swaps \<open>i\<close> with the last index unless they are equal, so it reads
  outside the slice for every \<open>i\<close> that is not an index of it.
\<close>

definition heap_Remove :: "('k, 'v) heap_state \<Rightarrow> int \<Rightarrow> panic + ('k, 'v) heap_state \<times> addr" where
  "heap_Remove hs i =
     (if 0 \<le> i \<and> nat i < Len hs then
        let n = Len hs - 1 in
        if n \<noteq> nat i then
          let hs1 = Swap hs (nat i) n;
              (hs2, moved) = down hs1 (nat i) n;
              hs3 = (if \<not> moved then up hs2 (nat i) else hs2)
          in Inr (Pop hs3)
        else Inr (Pop hs)
      else Inl IndexOutOfRange)"

text \<open>
  \<open>heap.Fix(h, i)\<close> is \<open>if !down(h, i, h.Len()) { up(h, i) }\<close>. Outside the slice \<open>down\<close>
  breaks at once (\<open>2*i+1 >= n\<close> or \<open>2*i+1 < 0\<close>); \<open>up\<close> then breaks at once for \<open>i = 0\<close>
  and for \<open>i = -1\<close>, whose parent index \<open>(i - 1) / 2\<close> is \<open>i\<close> itself, and calls
  \<open>Less\<close> on the index \<open>i\<close> otherwise.
\<close>

definition heap_Fix :: "('k, 'v) heap_state \<Rightarrow> int \<Rightarrow> panic + ('k, 'v) heap_state" where
  "heap_Fix hs i =
     (if 0 \<le> i \<and> nat i < Len hs then
        let (hs1, moved) = down hs (nat i) (Len hs)
        in Inr (if \<not> moved then up hs1 (nat i) else hs1)
      else if i = 0 \<or> i = - 1 then Inr hs
      else Inl IndexOutOfRange)"

section \<open>The timed map\<close>

text \<open>
  \<open>items\<close> is the key map, \<open>expHeap\<close> the heap slice, \<open>store\<close> the object store and
  \<open>nxt\<close> the next unused address. \<open>onExpire\<close> is \<open>None\<close> for a nil callback. The counters
  are the \<open>uint64\<close> fields of \<open>stats\<close>. \<open>wakeCh\<close> (a token is waiting in the one-slot wake
  channel) and \<open>expireQueue\<close> (the buffered channel of the worker pool, capacity 1024)
  exist in package \<open>main\<close> only; the functions of package \<open>temap\<close> never touch them.
\<close>

record ('k, 'v) TimedMap =
  items :: "'k \<rightharpoonup> addr"
  expHeap :: "addr list"
  store :: "addr \<Rightarrow> ('k, 'v) element"
  nxt :: addr
  onExpire :: "('k \<Rightarrow> 'v \<Rightarrow> unit) option"
  stats_added :: "64 word"
  stats_removed :: "64 word"
  stats_expired :: "64 word"
  stats_permanent :: "64 word"
  wakeCh :: bool
  expireQueue :: "addr list"
  expireWorkers :: int

definition heap_of :: "('k, 'v) TimedMap \<Rightarrow> ('k, 'v) heap_state" where
  "heap_of t = (expHeap t, store t)"

definition with_heap :: "('k, 'v) TimedMap \<Rightarrow> ('k, 'v) heap_state \<Rightarrow> ('k, 'v) TimedMap" where
  "with_heap t hs = t\<lparr>expHeap := fst hs, store := snd hs\<rparr>"

text \<open>The statement \<open>heap.Remove(&t.expHeap, i)\<close>, whose result is dropped.\<close>

definition do_Remove :: "('k, 'v) TimedMap \<Rightarrow> int \<Rightarrow> panic + ('k, 'v) TimedMap" where
  "do_Remove t i =
     (case heap_Remove (heap_of t) i of Inl p \<Rightarrow> Inl p | Inr (hs, x) \<Rightarrow> Inr (with_heap t hs))"

definition do_Fix :: "('k, 'v) TimedMap \<Rightarrow> int \<Rightarrow> panic + ('k, 'v) TimedMap" where
  "do_Fix t i =
     (case heap_Fix (heap_of t) i of Inl p \<Rightarrow> Inl p | Inr hs \<Rightarrow> Inr (with_heap t hs))"

definition do_Push :: "('k, 'v) TimedMap \<Rightarrow> addr \<Rightarrow> ('k, 'v) TimedMap" where
  "do_Push t a = with_heap t (heap_Push (heap_of t) a)"

text \<open>The field writes \<open>el.Value = v\<close> and \<open>el.ExpiresAt = e\<close> through the pointer \<open>a\<close>.\<close>

definition set_Value :: "('k, 'v) TimedMap \<Rightarrow> addr \<Rightarrow> 'v \<Rightarrow> ('k, 'v) TimedMap" where
  "set_Value t a v = t\<lparr>store := (store t)(a := (store t a)\<lparr>Value := v\<rparr>)\<rparr>"

definition set_ExpiresAt :: "('k, 'v) TimedMap \<Rightarrow> addr \<Rightarrow> int \<Rightarrow> ('k, 'v) TimedMap" where
  "set_ExpiresAt t a e = t\<lparr>store := (store t)(a := (store t a)\<lparr>ExpiresAt := e\<rparr>)\<rparr>"

text \<open>
  \<open>t.items[key] = &element{Key: key, Value: value, ExpiresAt: exp}\<close>: the new element has
  the zero value \<open>0\<close> in its \<open>index\<close> field.
\<close>

definition new_element ::
  "('k, 'v) TimedMap \<Rightarrow> 'k \<Rightarrow> 'v \<Rightarrow> int \<Rightarrow> ('k, 'v) TimedMap" where
  "new_element t key val exp =
     t\<lparr>items := (items t)(key \<mapsto> nxt t),
       store := (store t)(nxt t := \<lparr>Key = key, Value = val, ExpiresAt = exp, index = 0\<rparr>),
       nxt := nxt t + 1\<rparr>"

text \<open>
  \<open>New\<close> of package \<open>temap\<close> and of package \<open>main\<close>. The argument \<open>m\<close> is the content of
  the object store at the time of the call; no address of it is referenced yet.
\<close>

definition New_temap ::
  "(addr \<Rightarrow> ('k, 'v) element) \<Rightarrow> ('k \<Rightarrow> 'v \<Rightarrow> unit) option \<Rightarrow> ('k, 'v) TimedMap" where
  "New_temap m cb =
     \<lparr>items = Map.empty, expHeap = fst (heap_Init ([], m)), store = m, nxt = 0, onExpire = cb,
      stats_added = 0, stats_removed = 0, stats_expired = 0, stats_permanent = 0,
      wakeCh = False, expireQueue = [], expireWorkers = 0\<rparr>"

definition New_main ::
  "(addr \<Rightarrow> ('k, 'v) element) \<Rightarrow> ('k \<Rightarrow> 'v \<Rightarrow> unit) option \<Rightarrow> int \<Rightarrow> ('k, 'v) TimedMap" where
  "New_main m cb workerCount =
     \<lparr>items = Map.empty, expHeap = fst (heap_Init ([], m)), store = m, nxt = 0, onExpire = cb,
      stats_added = 0, stats_removed = 0, stats_expired = 0, stats_permanent = 0,
      wakeCh = False, expireQueue = [],
      expireWorkers = (if workerCount \<le> 0 then 4 else workerCount)\<rparr>"

section \<open>Operations common to both packages\<close>

text \<open>
  \<open>Get\<close> takes the read lock and reads; it is written in state-passing style like the
  mutating operations so that its effect on the map can be stated. The value \<open>nil\<close> of the
  not-found result is \<open>None\<close>.
\<close>

definition Get ::
  "('k, 'v) TimedMap \<Rightarrow> 'k \<Rightarrow> ('k, 'v) TimedMap \<times> ('v option \<times> int \<times> bool)" where
  "Get t key =
     (case items t key of
        None \<Rightarrow> (t, (None, ElementDoesntExist, False))
      | Some a \<Rightarrow> (t, (Some (Value (store t a)), ExpiresAt (store t a), True)))"

definition RemoveAll :: "('k, 'v) TimedMap \<Rightarrow> ('k, 'v) TimedMap" where
  "RemoveAll t = with_heap (t\<lparr>items := Map.empty\<rparr>) (heap_Init ([], store t))"

definition Size :: "('k, 'v) TimedMap \<Rightarrow> int" where
  "Size t = int (card (dom (items t)))"

definition Stats :: "('k, 'v) TimedMap \<Rightarrow> (string \<rightharpoonup> 64 word)" where
  "Stats t =
     [''added'' \<mapsto> stats_added t,
      ''removed'' \<mapsto> stats_removed t,
      ''expired'' \<mapsto> stats_expired t,
      ''permanent'' \<mapsto> stats_permanent t,
      ''current'' \<mapsto> of_nat (card (dom (items t)))]"

section \<open>Package \<open>temap\<close>\<close>

definition SetTemporary_temap ::
  "('k, 'v) TimedMap \<Rightarrow> 'k \<Rightarrow> 'v \<Rightarrow> Time \<Rightarrow> panic + ('k, 'v) TimedMap" where
  "SetTemporary_temap t key val expiresAt =
     (let exp = UnixNano expiresAt in
      case items t key of
        Some a \<Rightarrow>
          let t1 = set_ExpiresAt (set_Value t a val) a exp in
          if exp \<noteq> ElementPermanent then do_Fix t1 (index (store t1 a)) else Inr t1
      | None \<Rightarrow>
          let t1 = new_element t key val exp;
              t2 = (if exp \<noteq> ElementPermanent then do_Push t1 (nxt t)
                    else t1\<lparr>stats_permanent := stats_permanent t1 + 1\<rparr>)
          in Inr (t2\<lparr>stats_added := stats_added t2 + 1\<rparr>))"

definition SetPermanent_temap :: "('k, 'v) TimedMap \<Rightarrow> 'k \<Rightarrow> 'v \<Rightarrow> ('k, 'v) TimedMap" where
  "SetPermanent_temap t key val =
     (case items t key of
        Some a \<Rightarrow> set_ExpiresAt (set_Value t a val) a ElementPermanent
      | None \<Rightarrow>
          let t1 = new_element t key val ElementPermanent;
              t2 = t1\<lparr>stats_added := stats_added t1 + 1\<rparr>
          in t2\<lparr>stats_permanent := stats_permanent t2 + 1\<rparr>)"

text \<open>\<open>now\<close> is the reading of \<open>time.Now()\<close> taken by the call.\<close>

definition SetWithTTL_temap ::
  "('k, 'v) TimedMap \<Rightarrow> 'k \<Rightarrow> 'v \<Rightarrow> Duration \<Rightarrow> Time \<Rightarrow> panic + ('k, 'v) TimedMap" where
  "SetWithTTL_temap t key val ttl now =
     (if ttl \<le> 0 then Inr (SetPermanent_temap t key val)
      else SetTemporary_temap t key val (Add now ttl))"

definition Remove_temap :: "('k, 'v) TimedMap \<Rightarrow> 'k \<Rightarrow> panic + ('k, 'v) TimedMap" where
  "Remove_temap t key =
     (case items t key of
        Some a \<Rightarrow>
          let t1 = t\<lparr>items := (items t)(key := None)\<rparr>; el = store t a in
          (case (if ExpiresAt el \<noteq> ElementPermanent \<and> index el \<ge> 0
                    \<and> index el < int (length (expHeap t1))
                 then do_Remove t1 (index el) else Inr t1) of
             Inl p \<Rightarrow> Inl p
           | Inr t2 \<Rightarrow> Inr (t2\<lparr>stats_removed := stats_removed t2 + 1\<rparr>))
      | None \<Rightarrow> Inr t)"

definition MakePermanent_temap ::
  "('k, 'v) TimedMap \<Rightarrow> 'k \<Rightarrow> panic + ('k, 'v) TimedMap \<times> bool" where
  "MakePermanent_temap t key =
     (case items t key of
        None \<Rightarrow> Inr (t, False)
      | Some a \<Rightarrow>
          let el = store t a in
          if ExpiresAt el = ElementPermanent then Inr (t, True)
          else
            (case (if index el \<ge> 0 \<and> index el < int (length (expHeap t))
                   then do_Remove t (index el) else Inr t) of
               Inl p \<Rightarrow> Inl p
             | Inr t1 \<Rightarrow>
                 let t2 = set_ExpiresAt t1 a ElementPermanent
                 in Inr (t2\<lparr>stats_permanent := stats_permanent t2 + 1\<rparr>, True)))"

definition SetExpiry_temap ::
  "('k, 'v) TimedMap \<Rightarrow> 'k \<Rightarrow> Time \<Rightarrow> Time \<Rightarrow> panic + ('k, 'v) TimedMap \<times> bool" where
  "SetExpiry_temap t key expiresAt now =
     (case items t key of
        None \<Rightarrow> Inr (t, False)
      | Some a \<Rightarrow>
          let el = store t a in
          if IsZero expiresAt then
            (if ExpiresAt el = ElementPermanent then Inr (t, True)
             else
               (case (if index el \<ge> 0 \<and> index el < int (length (expHeap t))
                      then do_Remove t (index el) else Inr t) of
                  Inl p \<Rightarrow> Inl p
                | Inr t1 \<Rightarrow>
                    let t2 = set_ExpiresAt t1 a ElementPermanent
                    in Inr (t2\<lparr>stats_permanent := stats_permanent t2 + 1\<rparr>, True)))
          else
            let newExp = UnixNano expiresAt; nowN = UnixNano now in
            if newExp \<le> nowN then
              (case (if ExpiresAt el \<noteq> ElementPermanent \<and> index el \<ge> 0
                     then do_Remove t (index el) else Inr t) of
                 Inl p \<Rightarrow> Inl p
               | Inr t1 \<Rightarrow>
                   let t2 = t1\<lparr>items := (items t1)(key := None)\<rparr>
                   in Inr (t2\<lparr>stats_removed := stats_removed t2 + 1\<rparr>, False))
            else if ExpiresAt el = ElementPermanent then
              Inr (do_Push (set_ExpiresAt t a newExp) a, True)
            else
              let t1 = set_ExpiresAt t a newExp in
              (case (if index el \<ge> 0 \<and> index el < int (length (expHeap t1))
                     then do_Fix t1 (index el) else Inr t1) of
                 Inl p \<Rightarrow> Inl p
               | Inr t2 \<Rightarrow> Inr (t2, True)))"

section \<open>Package \<open>main\<close>\<close>

text \<open>
  \<open>signalCleaner\<close> is the non-blocking send on the one-slot wake channel; it is set by
  \<open>startCleaner\<close>, which \<open>New\<close> calls, so it is never nil on a constructed map.
\<close>

definition signalCleaner :: "('k, 'v) TimedMap \<Rightarrow> ('k, 'v) TimedMap" where
  "signalCleaner t = t\<lparr>wakeCh := True\<rparr>"

definition SetTemporary_main ::
  "('k, 'v) TimedMap \<Rightarrow> 'k \<Rightarrow> 'v \<Rightarrow> Time \<Rightarrow> panic + ('k, 'v) TimedMap" where
  "SetTemporary_main t key val expiresAt =
     (let exp = UnixNano expiresAt;
          r = (case items t key of
                 Some a \<Rightarrow>
                   let t1 = set_Value t a val in
                   if ExpiresAt (store t1 a) \<noteq> ElementPermanent then
                     let t2 = set_ExpiresAt t1 a exp in
                     if index (store t2 a) \<ge> 0 then do_Fix t2 (index (store t2 a))
                     else Inr (do_Push t2 a)
                   else Inr t1
               | None \<Rightarrow>
                   let t1 = new_element t key val exp;
                       t2 = (if exp \<noteq> ElementPermanent then do_Push t1 (nxt t)
                             else t1\<lparr>stats_permanent := stats_permanent t1 + 1\<rparr>)
                   in Inr (t2\<lparr>stats_added := stats_added t2 + 1\<rparr>))
      in case r of
           Inl p \<Rightarrow> Inl p
         | Inr t3 \<Rightarrow>
             Inr (if length (expHeap t3) > 0 \<and> Some (expHeap t3 ! 0) = items t3 key
                  then signalCleaner t3 else t3))"

definition SetPermanent_main ::
  "('k, 'v) TimedMap \<Rightarrow> 'k \<Rightarrow> 'v \<Rightarrow> panic + ('k, 'v) TimedMap" where
  "SetPermanent_main t key val =
     (case items t key of
        Some a \<Rightarrow>
          let t1 = set_Value t a val in
          (case (if ExpiresAt (store t1 a) \<noteq> ElementPermanent then
                   (case (if index (store t1 a) \<ge> 0 then do_Remove t1 (index (store t1 a))
                          else Inr t1) of
                      Inl p \<Rightarrow> Inl p
                    | Inr t2 \<Rightarrow> Inr (t2\<lparr>stats_permanent := stats_permanent t2 + 1\<rparr>))
                 else Inr t1) of
             Inl p \<Rightarrow> Inl p
           | Inr t3 \<Rightarrow> Inr (set_ExpiresAt t3 a ElementPermanent))
      | None \<Rightarrow>
          let t1 = new_element t key val ElementPermanent;
              t2 = t1\<lparr>stats_added := stats_added t1 + 1\<rparr>
          in Inr (t2\<lparr>stats_permanent := stats_permanent t2 + 1\<rparr>))"

definition SetWithTTL_main ::
  "('k, 'v) TimedMap \<Rightarrow> 'k \<Rightarrow> 'v \<Rightarrow> Duration \<Rightarrow> Time \<Rightarrow> panic + ('k, 'v) TimedMap" where
  "SetWithTTL_main t key val ttl now =
     (if ttl \<le> 0 then SetPermanent_main t key val
      else SetTemporary_main t key val (Add now ttl))"

definition SetExpiry_main ::
  "('k, 'v) TimedMap \<Rightarrow> 'k \<Rightarrow> Time \<Rightarrow> Time \<Rightarrow> panic + ('k, 'v) TimedMap \<times> bool" where
  "SetExpiry_main t key expiresAt now =
     (case items t key of
        None \<Rightarrow> Inr (t, False)
      | Some a \<Rightarrow>
          let el = store t a in
          if IsZero expiresAt then
            (case (if ExpiresAt el \<noteq> ElementPermanent then
                     (case (if index el \<ge> 0 then do_Remove t (index el) else Inr t) of
                        Inl p \<Rightarrow> Inl p
                      | Inr t1 \<Rightarrow> Inr (t1\<lparr>stats_permanent := stats_permanent t1 + 1\<rparr>))
                   else Inr t) of
               Inl p \<Rightarrow> Inl p
             | Inr t2 \<Rightarrow> Inr (set_ExpiresAt t2 a ElementPermanent, True))
          else
            let newExp = UnixNano expiresAt; nowN = UnixNano now in
            if newExp \<le> nowN then
              (case (if ExpiresAt el \<noteq> ElementPermanent \<and> index el \<ge> 0
                     then do_Remove t (index el) else Inr t) of
                 Inl p \<Rightarrow> Inl p
               | Inr t1 \<Rightarrow>
                   let t2 = t1\<lparr>items := (items t1)(key := None)\<rparr>
                   in Inr (t2\<lparr>stats_removed := stats_removed t2 + 1\<rparr>, False))
            else
              (case (if ExpiresAt el = ElementPermanent then
                       Inr (do_Push (set_ExpiresAt t a newExp) a)
                     else
                       let t1 = set_ExpiresAt t a newExp in
                       if index el \<ge> 0 then do_Fix t1 (index el) else Inr t1) of
                 Inl p \<Rightarrow> Inl p
               | Inr t3 \<Rightarrow>
                   Inr (if length (expHeap t3) > 0 \<and> expHeap t3 ! 0 = a
                        then signalCleaner t3 else t3, True)))"

definition Remove_main :: "('k, 'v) TimedMap \<Rightarrow> 'k \<Rightarrow> panic + ('k, 'v) TimedMap" where
  "Remove_main t key =
     (case items t key of
        None \<Rightarrow> Inr t
      | Some a \<Rightarrow>
          let t1 = t\<lparr>items := (items t)(key := None)\<rparr>; el = store t a in
          (case (if ExpiresAt el \<noteq> ElementPermanent \<and> index el \<ge> 0
                 then do_Remove t1 (index el) else Inr t1) of
             Inl p \<Rightarrow> Inl p
           | Inr t2 \<Rightarrow> Inr (t2\<lparr>stats_removed := stats_removed t2 + 1\<rparr>)))"

definition MakePermanent_main ::
  "('k, 'v) TimedMap \<Rightarrow> 'k \<Rightarrow> panic + ('k, 'v) TimedMap \<times> bool" where
  "MakePermanent_main t key =
     (case items t key of
        None \<Rightarrow> Inr (t, False)
      | Some a \<Rightarrow>
          let el = store t a in
          (case (if ExpiresAt el \<noteq> ElementPermanent then
                   (case (if index el \<ge> 0 then do_Remove t (index el) else Inr t) of
                      Inl p \<Rightarrow> Inl p
                    | Inr t1 \<Rightarrow> Inr (t1\<lparr>stats_permanent := stats_permanent t1 + 1\<rparr>))
                 else Inr t) of
             Inl p \<Rightarrow> Inl p
           | Inr t2 \<Rightarrow> Inr (set_ExpiresAt t2 a ElementPermanent, True)))"

section \<open>The cleaner\<close>

text \<open>
  The loop that pops the due elements, run by the cleaner goroutine of either package
  while it holds the write lock:
  \<^verbatim>\<open>for len(t.expHeap) > 0 && t.expHeap[0].ExpiresAt <= now { ... }\<close>.
  \<open>acc\<close> is the slice \<open>expired\<close>; \<open>expire_popped\<close> is the rest of the loop body after
  \<open>heap.Pop\<close> has returned the heap \<open>hs\<close> and the element \<open>el\<close>: the key is deleted
  from the key map and the expired counter grows by one.
\<close>

definition expire_popped ::
  "('k, 'v) TimedMap \<Rightarrow> ('k, 'v) heap_state \<Rightarrow> addr \<Rightarrow> ('k, 'v) TimedMap" where
  "expire_popped t hs el =
     (let t1 = with_heap t hs;
          t2 = t1\<lparr>items := (items t1)(Key (store t1 el) := None)\<rparr>
      in t2\<lparr>stats_expired := stats_expired t2 + 1\<rparr>)"

function drain ::
  "('k, 'v) TimedMap \<Rightarrow> int \<Rightarrow> addr list \<Rightarrow> panic + ('k, 'v) TimedMap \<times> addr list" where
  "drain t now acc =
     (if length (expHeap t) > 0 \<and> ExpiresAt (store t (expHeap t ! 0)) \<le> now then
        (case heap_Pop (heap_of t) of
           Inl p \<Rightarrow> Inl p
         | Inr (hs, el) \<Rightarrow> drain (expire_popped t hs el) now (acc @ [el]))
      else Inr (t, acc))"
  by pat_completeness auto
termination
proof -
  have len_Swap: "length (fst (Swap hs i j)) = length (fst hs)"
    for hs :: "('k, 'v) heap_state" and i j
    by (simp add: Swap_def Let_def)
  have len_down: "length (fst (fst (down_loop hs i n))) = length (fst hs)"
    for hs :: "('k, 'v) heap_state" and i n
  proof (induction hs i n rule: down_loop.induct)
    case (1 hs i n)
    show ?case
      using "1.IH" by (subst down_loop.simps) (simp add: Let_def len_Swap)
  qed
  have len_Pop: "length (fst hs') < length (fst hs)"
    if "heap_Pop hs = Inr (hs', el)" for hs hs' :: "('k, 'v) heap_state" and el
  proof -
    have ld: "length (fst (fst (down h i n))) = length (fst h)"
      for h :: "('k, 'v) heap_state" and i n
      by (simp add: down_def Let_def split_beta len_down)
    have lp: "length (fst (fst (Pop h))) = length (fst h) - 1"
      for h :: "('k, 'v) heap_state"
      by (simp add: Pop_def Let_def)
    from that have ne: "fst hs \<noteq> []"
      and eq: "hs' = fst (Pop (fst (down (Swap hs 0 (Len hs - 1)) 0 (Len hs - 1))))"
      by (auto simp: heap_Pop_def Len_def Let_def split: if_splits)
    show ?thesis
      using ne by (simp add: eq lp ld len_Swap)
  qed
  show ?thesis
    by (relation "measure (\<lambda>(t, now, acc). length (expHeap t))")
      (auto simp: expire_popped_def with_heap_def heap_of_def Let_def dest: len_Pop)
qed

declare drain.simps [simp del]

text \<open>
  What the cleaner goroutine does, in order: lock and unlock the mutex, pop an element
  from the heap, send an element to the worker queue, start a goroutine that calls
  \<open>onExpire\<close> on a key and a value.
\<close>

datatype ('k, 'v) event = Lock | Unlock | Popped addr | Send addr | Go 'k 'v

text \<open>Package \<open>temap\<close>: one goroutine per expired element, unless the callback is nil.\<close>

definition dispatch_temap :: "('k, 'v) TimedMap \<Rightarrow> addr list \<Rightarrow> ('k, 'v) event list" where
  "dispatch_temap t els =
     concat (map (\<lambda>el. case onExpire t of
                          None \<Rightarrow> []
                        | Some f \<Rightarrow> [Go (Key (store t el)) (Value (store t el))]) els)"

text \<open>
  Package \<open>main\<close>: a non-blocking send to the queue of capacity 1024, and on a full
  queue \<^verbatim>\<open>go func(el *element) { t.onExpire(el.Key, el.Value) }(el)\<close>, which calls
  the callback without testing it; the call of a nil function value panics. The function
  follows the schedule in which no worker receives while the cleaner sends.
\<close>

fun dispatch_main ::
  "('k, 'v) TimedMap \<Rightarrow> addr list \<Rightarrow> panic + ('k, 'v) TimedMap \<times> ('k, 'v) event list" where
  "dispatch_main t [] = Inr (t, [])"
| "dispatch_main t (el # els) =
     (if length (expireQueue t) < 1024 then
        (case dispatch_main (t\<lparr>expireQueue := expireQueue t @ [el]\<rparr>) els of
           Inl p \<Rightarrow> Inl p
         | Inr (t', evs) \<Rightarrow> Inr (t', Send el # evs))
      else
        (case onExpire t of
           None \<Rightarrow> Inl NilFuncCall
         | Some f \<Rightarrow>
             (case dispatch_main t els of
                Inl p \<Rightarrow> Inl p
              | Inr (t', evs) \<Rightarrow> Inr (t', Go (Key (store t el)) (Value (store t el)) # evs))))"

text \<open>
  One receive of a worker of package \<open>main\<close>:
  \<^verbatim>\<open>for el := range t.expireQueue { if t.onExpire != nil { t.onExpire(el.Key, el.Value) } }\<close>.
  \<open>None\<close> stands for the worker blocking on the empty queue.
\<close>

definition worker_step ::
  "('k, 'v) TimedMap \<Rightarrow> (('k, 'v) TimedMap \<times> ('k, 'v) event list) option" where
  "worker_step t =
     (case expireQueue t of
        [] \<Rightarrow> None
      | el # q \<Rightarrow>
          Some (t\<lparr>expireQueue := q\<rparr>,
                case onExpire t of
                  None \<Rightarrow> []
                | Some f \<Rightarrow> [Go (Key (store t el)) (Value (store t el))]))"

text \<open>
  One turn of the cleaner's \<open>for\<close> loop up to the point where it blocks or continues.
  \<open>now1\<close> is the clock reading of \<open>time.Until\<close>, \<open>now2\<close> the reading of the following
  \<open>time.Now()\<close>.
\<close>

definition cleaner_pass_temap ::
  "('k, 'v) TimedMap \<Rightarrow> Time \<Rightarrow> Time \<Rightarrow> panic + ('k, 'v) TimedMap \<times> ('k, 'v) event list" where
  "cleaner_pass_temap t now1 now2 =
     (if length (expHeap t) = 0 then Inr (t, [Lock, Unlock])
      else
        let next = store t (expHeap t ! 0); wait = ExpiresAt next - now1 in
        if wait \<le> 0 then
          (case drain t (UnixNano now2) [] of
             Inl p \<Rightarrow> Inl p
           | Inr (t1, expired) \<Rightarrow>
               Inr (t1, Lock # map Popped expired @ [Unlock] @ dispatch_temap t1 expired))
        else Inr (t, [Lock, Unlock]))"

definition cleaner_pass_main ::
  "('k, 'v) TimedMap \<Rightarrow> Time \<Rightarrow> Time \<Rightarrow> panic + ('k, 'v) TimedMap \<times> ('k, 'v) event list" where
  "cleaner_pass_main t now1 now2 =
     (if length (expHeap t) = 0 then Inr (t, [Lock, Unlock])
      else
        let next = store t (expHeap t ! 0); wait = ExpiresAt next - now1 in
        if wait \<le> 0 then
          (case drain t (UnixNano now2) [] of
             Inl p \<Rightarrow> Inl p
           | Inr (t1, expired) \<Rightarrow>
               (case dispatch_main t1 expired of
                  Inl p \<Rightarrow> Inl p
                | Inr (t2, evs) \<Rightarrow> Inr (t2, Lock # map Popped expired @ [Unlock] @ evs)))
        else Inr (t, [Lock, Unlock]))"

section \<open>Sequences of operations\<close>

text \<open>
  The calls a client can make, and the cleaner's turn, as data. A call that reads the
  clock carries the reading.
\<close>

datatype ('k, 'v) op =
    Op_SetPermanent 'k 'v
  | Op_SetTemporary 'k 'v Time
  | Op_SetWithTTL 'k 'v Duration Time
  | Op_Remove 'k
  | Op_RemoveAll
  | Op_MakePermanent 'k
  | Op_SetExpiry 'k Time Time
  | Op_Get 'k
  | Op_Cleaner Time Time

definition drop_result :: "panic + 'a \<times> 'b \<Rightarrow> panic + 'a" where
  "drop_result r = (case r of Inl p \<Rightarrow> Inl p | Inr (t, b) \<Rightarrow> Inr t)"

fun apply_temap :: "('k, 'v) TimedMap \<Rightarrow> ('k, 'v) op \<Rightarrow> panic + ('k, 'v) TimedMap" where
  "apply_temap t (Op_SetPermanent k v) = Inr (SetPermanent_temap t k v)"
| "apply_temap t (Op_SetTemporary k v e) = SetTemporary_temap t k v e"
| "apply_temap t (Op_SetWithTTL k v d now) = SetWithTTL_temap t k v d now"
| "apply_temap t (Op_Remove k) = Remove_temap t k"
| "apply_temap t Op_RemoveAll = Inr (RemoveAll t)"
| "apply_temap t (Op_MakePermanent k) = drop_result (MakePermanent_temap t k)"
| "apply_temap t (Op_SetExpiry k e now) = drop_result (SetExpiry_temap t k e now)"
| "apply_temap t (Op_Get k) = Inr (fst (Get t k))"
| "apply_temap t (Op_Cleaner now1 now2) = drop_result (cleaner_pass_temap t now1 now2)"

fun apply_main :: "('k, 'v) TimedMap \<Rightarrow> ('k, 'v) op \<Rightarrow> panic + ('k, 'v) TimedMap" where
  "apply_main t (Op_SetPermanent k v) = SetPermanent_main t k v"
| "apply_main t (Op_SetTemporary k v e) = SetTemporary_main t k v e"
| "apply_main t (Op_SetWithTTL k v d now) = SetWithTTL_main t k v d now"
| "apply_main t (Op_Remove k) = Remove_main t k"
| "apply_main t Op_RemoveAll = Inr (RemoveAll t)"
| "apply_main t (Op_MakePermanent k) = drop_result (MakePermanent_main t k)"
| "apply_main t (Op_SetExpiry k e now) = drop_result (SetExpiry_main t k e now)"
| "apply_main t (Op_Get k) = Inr (fst (Get t k))"
| "apply_main t (Op_Cleaner now1 now2) = drop_result (cleaner_pass_main t now1 now2)"

fun run_temap :: "('k, 'v) TimedMap \<Rightarrow> ('k, 'v) op list \<Rightarrow> panic + ('k, 'v) TimedMap" where
  "run_temap t [] = Inr t"
| "run_temap t (x # xs) =
     (case apply_temap t x of Inl p \<Rightarrow> Inl p | Inr t' \<Rightarrow> run_temap t' xs)"

fun run_main :: "('k, 'v) TimedMap \<Rightarrow> ('k, 'v) op list \<Rightarrow> panic + ('k, 'v) TimedMap" where
  "run_main t [] = Inr t"
| "run_main t (x # xs) =
     (case apply_main t x of Inl p \<Rightarrow> Inl p | Inr t' \<Rightarrow> run_main t' xs)"

section \<open>Notions used in the statements\<close>

text \<open>The elements of a store with the \<open>index\<close> fields blanked: what the heap never writes.\<close>

definition data_of :: "(addr \<Rightarrow> ('k, 'v) element) \<Rightarrow> addr \<Rightarrow> ('k, 'v) element" where
  "data_of m = (\<lambda>a. (m a)\<lparr>index := 0\<rparr>)"

text \<open>The element at \<open>a\<close> is in the heap at the position its \<open>index\<close> field names.\<close>

definition tracked :: "('k, 'v) TimedMap \<Rightarrow> addr \<Rightarrow> bool" where
  "tracked t a =
     (0 \<le> index (store t a) \<and> nat (index (store t a)) < length (expHeap t) \<and>
      expHeap t ! nat (index (store t a)) = a)"


text \<open>
  The element at \<open>a\<close> is placed as the heap and store invariant of the data model asks:
  the heap holds no pointer twice, a permanent element is outside the heap, a temporary
  one is in the heap at its \<open>index\<close>.
\<close>

definition entry_consistent :: "('k, 'v) TimedMap \<Rightarrow> addr \<Rightarrow> bool" where
  "entry_consistent t a =
     (distinct (expHeap t) \<and>
      (if ExpiresAt (store t a) = ElementPermanent then a \<notin> set (expHeap t) else tracked t a))"


text \<open>
  A map with the single temporary key \<open>''a''\<close>, value \<open>1\<close>, expiring at nanosecond \<open>100\<close>
  of the Unix epoch, as the statements' concrete instance.
\<close>

definition one_temporary :: "(string, nat) TimedMap" where
  "one_temporary =
     \<lparr>items = [''a'' \<mapsto> 0], expHeap = [0],
      store = (\<lambda>_. \<lparr>Key = ''a'', Value = 1, ExpiresAt = 100, index = 0\<rparr>), nxt = 1,
      onExpire = None, stats_added = 1, stats_removed = 0, stats_expired = 0,
      stats_permanent = 0, wakeCh = False, expireQueue = [], expireWorkers = 4\<rparr>"

text \<open>An object store for the concrete instances: every cell holds the zero element.\<close>

definition blank_store :: "addr \<Rightarrow> (string, nat) element" where
  "blank_store = (\<lambda>_. \<lparr>Key = [], Value = 0, ExpiresAt = 0, index = 0\<rparr>)"

text \<open>
  The heap is a binary min-heap on the expiries: no element expires before its parent, the
  parent of position \<open>c\<close> being position \<open>(c - 1) div 2\<close>.
\<close>

definition heap_ordered :: "('k, 'v) heap_state \<Rightarrow> bool" where
  "heap_ordered hs =
     (\<forall>c. 0 < c \<and> c < length (fst hs) \<longrightarrow>
        ExpiresAt (snd hs (fst hs ! ((c - 1) div 2))) \<le> ExpiresAt (snd hs (fst hs ! c)))"

text \<open>
  The list of expiries along the heap, and the two orderings of a list of expiries that
  the proof for \<open>down\<close> goes through: ordered below \<open>n\<close>, and ordered below \<open>n\<close> except
  at the children of \<open>i\<close>, which are bounded by the parent of \<open>i\<close> instead.
\<close>

definition expiries :: "('k, 'v) heap_state \<Rightarrow> int list" where
  "expiries hs = map (\<lambda>a. ExpiresAt (snd hs a)) (fst hs)"

definition ordered_upto :: "int list \<Rightarrow> nat \<Rightarrow> bool" where
  "ordered_upto ks n = (\<forall>c. 0 < c \<and> c < n \<longrightarrow> ks ! ((c - 1) div 2) \<le> ks ! c)"

definition ordered_except :: "int list \<Rightarrow> nat \<Rightarrow> nat \<Rightarrow> bool" where
  "ordered_except ks n i =
     (\<forall>c. 0 < c \<and> c < n \<longrightarrow>
        ((c - 1) div 2 \<noteq> i \<longrightarrow> ks ! ((c - 1) div 2) \<le> ks ! c) \<and>
        ((c - 1) div 2 = i \<and> 0 < i \<longrightarrow> ks ! ((i - 1) div 2) \<le> ks ! c))"

text \<open>
  What the loop \<open>drain\<close> has done when it returns the map \<open>t'\<close> and the popped elements
  \<open>ex\<close>: the heap is split into \<open>ex\<close>, whose elements are all due at \<open>now\<close>, and the
  remaining heap, whose elements are not; \<open>ex\<close> is in non-decreasing order of expiry; the
  keys of \<open>ex\<close> are deleted; the remaining heap is ordered; the expired counter has grown
  by the length of \<open>ex\<close>.
\<close>

definition drained_step ::
  "('k, 'v) TimedMap \<Rightarrow> int \<Rightarrow> addr list \<Rightarrow> ('k, 'v) TimedMap \<Rightarrow> bool" where
  "drained_step t now ex t' =
     (mset (expHeap t) = mset ex + mset (expHeap t') \<and>
      list_all (\<lambda>a. ExpiresAt (store t a) \<le> now) ex \<and>
      list_all (\<lambda>a. \<not> ExpiresAt (store t a) \<le> now) (expHeap t') \<and>
      sorted (map (\<lambda>a. ExpiresAt (store t a)) ex) \<and>
      items t' = (\<lambda>k. if k \<in> (\<lambda>a. Key (store t a)) ` set ex then None else items t k) \<and>
      data_of (store t') = data_of (store t) \<and>
      heap_ordered (heap_of t') \<and>
      stats_expired t' = stats_expired t + of_nat (length ex) \<and>
      stats_added t' = stats_added t \<and>
      stats_removed t' = stats_removed t \<and>
      stats_permanent t' = stats_permanent t \<and>
      onExpire t' = onExpire t \<and>
      expireQueue t' = expireQueue t)"


text \<open>
  The map built by \<open>SetTemporary\<close> on the keys \<open>''a''\<close>, \<open>''b''\<close>, \<open>''c''\<close> with the expiries
  \<open>100\<close>, \<open>50\<close> and \<open>200\<close>, in that order.
\<close>

definition three_temporary :: "(string, nat) TimedMap" where
  "three_temporary =
     \<lparr>items = [''a'' \<mapsto> 0, ''b'' \<mapsto> 1, ''c'' \<mapsto> 2], expHeap = [1, 0, 2],
      store = blank_store
        (1 := \<lparr>Key = ''b'', Value = 2, ExpiresAt = 50, index = 0\<rparr>,
         0 := \<lparr>Key = ''a'', Value = 1, ExpiresAt = 100, index = 1\<rparr>,
         2 := \<lparr>Key = ''c'', Value = 3, ExpiresAt = 200, index = 2\<rparr>),
      nxt = 3, onExpire = None, stats_added = 3, stats_removed = 0, stats_expired = 0,
      stats_permanent = 0, wakeCh = True, expireQueue = [], expireWorkers = 4\<rparr>"

text \<open>
  The orderings that the proofs for \<open>up\<close> and \<open>heap.Fix\<close> go through: ordered below \<open>n\<close>
  except between \<open>j\<close> and its parent, the children of \<open>j\<close> being bounded by the parent of
  \<open>j\<close>; and ordered below \<open>n\<close> except around \<open>i\<close>, in both directions.
\<close>

definition ordered_except_up :: "int list \<Rightarrow> nat \<Rightarrow> nat \<Rightarrow> bool" where
  "ordered_except_up ks n j =
     (\<forall>c. 0 < c \<and> c < n \<longrightarrow>
        (c \<noteq> j \<longrightarrow> ks ! ((c - 1) div 2) \<le> ks ! c) \<and>
        ((c - 1) div 2 = j \<and> 0 < j \<longrightarrow> ks ! ((j - 1) div 2) \<le> ks ! c))"

definition ordered_but :: "int list \<Rightarrow> nat \<Rightarrow> nat \<Rightarrow> bool" where
  "ordered_but ks n i =
     (\<forall>c. 0 < c \<and> c < n \<longrightarrow>
        (c \<noteq> i \<and> (c - 1) div 2 \<noteq> i \<longrightarrow> ks ! ((c - 1) div 2) \<le> ks ! c) \<and>
        ((c - 1) div 2 = i \<and> 0 < i \<longrightarrow> ks ! ((i - 1) div 2) \<le> ks ! c))"

text \<open>
  The heap holds no pointer twice and the \<open>index\<close> field of every element in it is the
  element's position, which is what \<open>Swap\<close>, \<open>Push\<close> and \<open>Pop\<close> maintain; a well-formed
  heap is ordered and indexed.
\<close>

definition indexed :: "('k, 'v) heap_state \<Rightarrow> bool" where
  "indexed hs =
     (distinct (fst hs) \<and>
      (\<forall>k. k < length (fst hs) \<longrightarrow> index (snd hs (fst hs ! k)) = int k))"

definition heap_wf :: "('k, 'v) heap_state \<Rightarrow> bool" where
  "heap_wf hs = (heap_ordered hs \<and> indexed hs)"

text \<open>
  How the key map \<open>its\<close> and the set \<open>H\<close> of the pointers in the heap hang together: a key
  maps to an allocated element that carries this key, every element of the heap is the
  element of its key, and an element of the key map is in the heap exactly when its expiry
  is not the sentinel. A map is consistent when its heap is well formed and linked to its
  key map.
\<close>

definition linked ::
  "('k \<rightharpoonup> addr) \<Rightarrow> addr \<Rightarrow> addr set \<Rightarrow> (addr \<Rightarrow> 'k) \<Rightarrow> (addr \<Rightarrow> int) \<Rightarrow> bool" where
  "linked its n H K E =
     ((\<forall>k a. its k = Some a \<longrightarrow> K a = k \<and> a < n) \<and>
      (\<forall>a\<in>H. a < n \<and> its (K a) = Some a) \<and>
      (\<forall>k a. its k = Some a \<longrightarrow> (a \<in> H \<longleftrightarrow> E a \<noteq> ElementPermanent)))"

definition consistent :: "('k, 'v) TimedMap \<Rightarrow> bool" where
  "consistent t =
     (heap_wf (heap_of t) \<and>
      linked (items t) (nxt t) (set (expHeap t))
        (\<lambda>a. Key (store t a)) (\<lambda>a. ExpiresAt (store t a)))"

text \<open>
  The calls that write no expiry equal to the sentinel into a temporary element: the
  instant given to \<open>SetTemporary\<close>, or computed by \<open>SetWithTTL\<close>, is not nanosecond \<open>0\<close> of
  the Unix epoch, and \<open>SetExpiry\<close> is given that instant only when it has passed.
\<close>

fun epoch_free :: "('k, 'v) op \<Rightarrow> bool" where
  "epoch_free (Op_SetTemporary k v e) = (UnixNano e \<noteq> ElementPermanent)"
| "epoch_free (Op_SetWithTTL k v d now) = (d \<le> 0 \<or> UnixNano (Add now d) \<noteq> ElementPermanent)"
| "epoch_free (Op_SetExpiry k e now) =
     (UnixNano e \<noteq> ElementPermanent \<or> UnixNano e \<le> UnixNano now)"
| "epoch_free _ = True"

section \<open>The heap functions keep the elements\<close>

lemma data_of_index_upd [simp]: "data_of (m(a := (m a)\<lparr>index := i\<rparr>)) = data_of m"
  by (auto simp: data_of_def fun_eq_iff)

lemma data_of_fields:
  assumes "data_of m' = data_of m"
  shows "Key (m' a) = Key (m a)" "Value (m' a) = Value (m a)" "ExpiresAt (m' a) = ExpiresAt (m a)"
proof -
  have "data_of m' a = data_of m a" using assms by simp
  then have e: "(m' a)\<lparr>index := 0\<rparr> = (m a)\<lparr>index := 0\<rparr>" by (simp add: data_of_def)
  from e have "Key ((m' a)\<lparr>index := 0\<rparr>) = Key ((m a)\<lparr>index := 0\<rparr>)" by simp
  then show "Key (m' a) = Key (m a)" by simp
  from e have "Value ((m' a)\<lparr>index := 0\<rparr>) = Value ((m a)\<lparr>index := 0\<rparr>)" by simp
  then show "Value (m' a) = Value (m a)" by simp
  from e have "ExpiresAt ((m' a)\<lparr>index := 0\<rparr>) = ExpiresAt ((m a)\<lparr>index := 0\<rparr>)" by simp
  then show "ExpiresAt (m' a) = ExpiresAt (m a)" by simp
qed

lemma fst_Swap: "fst (Swap hs i j) = (fst hs)[i := fst hs ! j, j := fst hs ! i]"
  by (simp add: Swap_def Let_def)

lemma length_Swap [simp]: "length (fst (Swap hs i j)) = length (fst hs)"
  by (simp add: fst_Swap)

lemma data_Swap [simp]: "data_of (snd (Swap hs i j)) = data_of (snd hs)"
  by (auto simp: data_of_def fun_eq_iff Swap_def Let_def)

lemma mset_Swap:
  "i < length (fst hs) \<Longrightarrow> j < length (fst hs) \<Longrightarrow> mset (fst (Swap hs i j)) = mset (fst hs)"
  by (simp add: fst_Swap mset_swap)

lemma nth_Swap_other:
  "k \<noteq> i \<Longrightarrow> k \<noteq> j \<Longrightarrow> fst (Swap hs i j) ! k = fst hs ! k"
  by (simp add: fst_Swap)

lemma down_loop_unfold:
  "down_loop hs i n =
     (if n \<le> 2 * i + 1 then (hs, i)
      else if 2 * i + 2 < n \<and> Less hs (2 * i + 2) (2 * i + 1) then
        (if Less hs (2 * i + 2) i then down_loop (Swap hs i (2 * i + 2)) (2 * i + 2) n
         else (hs, i))
      else
        (if Less hs (2 * i + 1) i then down_loop (Swap hs i (2 * i + 1)) (2 * i + 1) n
         else (hs, i)))"
  by (subst down_loop.simps) (simp add: Let_def)

lemma down_loop_step:
  "(down_loop hs i n = (hs, i) \<and>
      (\<forall>c<n. c = 2 * i + 1 \<or> c = 2 * i + 2 \<longrightarrow> \<not> Less hs c i)) \<or>
   (\<exists>j. i < j \<and> j < n \<and> (j = 2 * i + 1 \<or> j = 2 * i + 2) \<and> Less hs j i \<and>
      (\<forall>c<n. c = 2 * i + 1 \<or> c = 2 * i + 2 \<longrightarrow> \<not> Less hs c j) \<and>
      down_loop hs i n = down_loop (Swap hs i j) j n)"
proof -
  consider (leaf) "n \<le> 2 * i + 1"
    | (right) "\<not> n \<le> 2 * i + 1" "2 * i + 2 < n \<and> Less hs (2 * i + 2) (2 * i + 1)"
    | (left) "\<not> n \<le> 2 * i + 1" "\<not> (2 * i + 2 < n \<and> Less hs (2 * i + 2) (2 * i + 1))"
    by blast
  then show ?thesis
  proof cases
    case leaf
    then have "down_loop hs i n = (hs, i)" by (subst down_loop_unfold) auto
    with leaf show ?thesis by auto
  next
    case right
    show ?thesis
    proof (cases "Less hs (2 * i + 2) i")
      case True
      with right have "down_loop hs i n = down_loop (Swap hs i (2 * i + 2)) (2 * i + 2) n"
        by (subst down_loop_unfold) auto
      with True right have "i < 2 * i + 2 \<and> 2 * i + 2 < n \<and> Less hs (2 * i + 2) i \<and>
        (\<forall>c<n. c = 2 * i + 1 \<or> c = 2 * i + 2 \<longrightarrow> \<not> Less hs c (2 * i + 2)) \<and>
        down_loop hs i n = down_loop (Swap hs i (2 * i + 2)) (2 * i + 2) n"
        by (auto simp: Less_def)
      then show ?thesis by blast
    next
      case False
      with right have "down_loop hs i n = (hs, i)" by (subst down_loop_unfold) auto
      with False right show ?thesis by (auto simp: Less_def)
    qed
  next
    case left
    show ?thesis
    proof (cases "Less hs (2 * i + 1) i")
      case True
      with left have "down_loop hs i n = down_loop (Swap hs i (2 * i + 1)) (2 * i + 1) n"
        by (subst down_loop_unfold) auto
      with True left have "i < 2 * i + 1 \<and> 2 * i + 1 < n \<and> Less hs (2 * i + 1) i \<and>
        (\<forall>c<n. c = 2 * i + 1 \<or> c = 2 * i + 2 \<longrightarrow> \<not> Less hs c (2 * i + 1)) \<and>
        down_loop hs i n = down_loop (Swap hs i (2 * i + 1)) (2 * i + 1) n"
        by (auto simp: Less_def)
      then show ?thesis by blast
    next
      case False
      with left have "down_loop hs i n = (hs, i)" by (subst down_loop_unfold) auto
      with False left show ?thesis by (auto simp: Less_def)
    qed
  qed
qed

lemma up_step:
  "(up hs j = hs \<and> (j = 0 \<or> \<not> Less hs j ((j - 1) div 2))) \<or>
   (0 < j \<and> Less hs j ((j - 1) div 2) \<and>
      up hs j = up (Swap hs ((j - 1) div 2) j) ((j - 1) div 2))"
proof (cases "(j - 1) div 2 = j \<or> \<not> Less hs j ((j - 1) div 2)")
  case True
  then have "up hs j = hs" by (subst up.simps) (simp add: Let_def)
  moreover have "(j - 1) div 2 = j \<Longrightarrow> j = 0" by presburger
  ultimately show ?thesis using True by blast
next
  case False
  then have "up hs j = up (Swap hs ((j - 1) div 2) j) ((j - 1) div 2)"
    by (subst up.simps) (simp add: Let_def)
  moreover have "0 < j" using False by (cases j) auto
  ultimately show ?thesis using False by blast
qed

lemma down_loop_frame:
  "n \<le> length (fst hs) \<Longrightarrow>
     length (fst (fst (down_loop hs i n))) = length (fst hs) \<and>
     data_of (snd (fst (down_loop hs i n))) = data_of (snd hs) \<and>
     mset (fst (fst (down_loop hs i n))) = mset (fst hs) \<and>
     (\<forall>k. n \<le> k \<longrightarrow> fst (fst (down_loop hs i n)) ! k = fst hs ! k) \<and>
     (\<forall>k. k < i \<longrightarrow> fst (fst (down_loop hs i n)) ! k = fst hs ! k)"
proof (induction "n - i" arbitrary: hs i rule: less_induct)
  case less
  from down_loop_step[of hs i n]
  consider (stop) "down_loop hs i n = (hs, i)"
    | (step) j where "i < j" "j < n" "down_loop hs i n = down_loop (Swap hs i j) j n"
    by blast
  then show ?case
  proof cases
    case stop
    then show ?thesis by simp
  next
    case (step j)
    note j = step(1,2) and eq = step(3)
    have "n - j < n - i" using j by simp
    from less.hyps[OF this, of "Swap hs i j"] less.prems
    have IH: "length (fst (fst (down_loop (Swap hs i j) j n))) = length (fst hs) \<and>
     data_of (snd (fst (down_loop (Swap hs i j) j n))) = data_of (snd hs) \<and>
     mset (fst (fst (down_loop (Swap hs i j) j n))) = mset (fst (Swap hs i j)) \<and>
     (\<forall>k. n \<le> k \<longrightarrow> fst (fst (down_loop (Swap hs i j) j n)) ! k = fst (Swap hs i j) ! k) \<and>
     (\<forall>k. k < j \<longrightarrow> fst (fst (down_loop (Swap hs i j) j n)) ! k = fst (Swap hs i j) ! k)"
      by simp
    show ?thesis
      unfolding eq using IH j less.prems
      by (auto simp: mset_Swap nth_Swap_other)
  qed
qed

lemma up_frame:
  "j < length (fst hs) \<Longrightarrow>
     length (fst (up hs j)) = length (fst hs) \<and>
     data_of (snd (up hs j)) = data_of (snd hs) \<and>
     mset (fst (up hs j)) = mset (fst hs) \<and>
     (\<forall>k. j < k \<longrightarrow> fst (up hs j) ! k = fst hs ! k)"
proof (induction j arbitrary: hs rule: less_induct)
  case (less j)
  from up_step[of hs j]
  consider (stop) "up hs j = hs"
    | (step) "0 < j" "up hs j = up (Swap hs ((j - 1) div 2) j) ((j - 1) div 2)"
    by blast
  then show ?case
  proof cases
    case stop
    then show ?thesis by simp
  next
    case step
    note j = step(1) and eq = step(2)
    have lt: "(j - 1) div 2 < j" using j by presburger
    from less.IH[OF lt, of "Swap hs ((j - 1) div 2) j"] less.prems lt
    have IH: "length (fst (up (Swap hs ((j - 1) div 2) j) ((j - 1) div 2))) = length (fst hs) \<and>
     data_of (snd (up (Swap hs ((j - 1) div 2) j) ((j - 1) div 2))) = data_of (snd hs) \<and>
     mset (fst (up (Swap hs ((j - 1) div 2) j) ((j - 1) div 2))) = mset (fst (Swap hs ((j - 1) div 2) j)) \<and>
     (\<forall>k. (j - 1) div 2 < k \<longrightarrow> fst (up (Swap hs ((j - 1) div 2) j) ((j - 1) div 2)) ! k = fst (Swap hs ((j - 1) div 2) j) ! k)"
      by simp
    show ?thesis
      unfolding eq using IH lt less.prems
      by (auto simp: mset_Swap nth_Swap_other)
  qed
qed

lemma mset_butlast:
  "xs \<noteq> [] \<Longrightarrow> mset (butlast xs) = mset xs - {# xs ! (length xs - 1) #}"
  by (induction xs rule: rev_induct) auto

lemma Pop_frame:
  "fst hs \<noteq> [] \<Longrightarrow>
     snd (Pop hs) = fst hs ! (length (fst hs) - 1) \<and>
     fst (fst (Pop hs)) = butlast (fst hs) \<and>
     data_of (snd (fst (Pop hs))) = data_of (snd hs)"
  by (simp add: Pop_def Let_def)

lemma down_frame:
  assumes "n \<le> length (fst hs)"
  shows "length (fst (fst (down hs i n))) = length (fst hs)"
    and "data_of (snd (fst (down hs i n))) = data_of (snd hs)"
    and "mset (fst (fst (down hs i n))) = mset (fst hs)"
    and "n \<le> k \<Longrightarrow> fst (fst (down hs i n)) ! k = fst hs ! k"
  using down_loop_frame[OF assms, of i] by (simp_all add: down_def split_beta)

lemma heap_Remove_spec:
  assumes "0 \<le> i" "nat i < length (fst hs)"
  shows "\<exists>hs'. heap_Remove hs i = Inr (hs', fst hs ! nat i) \<and>
           mset (fst hs') = mset (fst hs) - {# fst hs ! nat i #} \<and>
           data_of (snd hs') = data_of (snd hs)"
proof (cases "length (fst hs) - 1 = nat i")
  case True
  have ne: "fst hs \<noteq> []" using assms by auto
  have "heap_Remove hs i = Inr (Pop hs)"
    using assms True by (simp add: heap_Remove_def Len_def)
  then show ?thesis
    using Pop_frame[OF ne] True mset_butlast[OF ne]
    by (cases "Pop hs") auto
next
  case False
  define n where "n = length (fst hs) - 1"
  define hs1 where "hs1 = Swap hs (nat i) n"
  define hs2 where "hs2 = fst (down hs1 (nat i) n)"
  define hs3 where "hs3 = (if \<not> snd (down hs1 (nat i) n) then up hs2 (nat i) else hs2)"
  have lt: "nat i < n" "n < length (fst hs)" using assms False by (auto simp: n_def)
  have eq: "heap_Remove hs i = Inr (Pop hs3)"
    using assms False
    by (simp add: heap_Remove_def Len_def Let_def split_beta hs3_def hs2_def hs1_def n_def)
  have l1: "length (fst hs1) = length (fst hs)" "mset (fst hs1) = mset (fst hs)"
    "data_of (snd hs1) = data_of (snd hs)" "fst hs1 ! n = fst hs ! nat i"
    using lt assms mset_Swap[of "nat i" hs n] by (simp_all add: hs1_def fst_Swap del: length_Swap)
  have nle: "n \<le> length (fst hs1)" using lt l1 by simp
  have l2: "length (fst hs2) = length (fst hs)" "mset (fst hs2) = mset (fst hs)"
    "data_of (snd hs2) = data_of (snd hs)" "fst hs2 ! n = fst hs ! nat i"
    using down_frame(1-3)[OF nle, of "nat i"] down_frame(4)[OF nle, of n "nat i"] l1
    by (simp_all add: hs2_def)
  have il: "nat i < length (fst hs2)" using lt l2 by simp
  have l3: "length (fst hs3) = length (fst hs)" "mset (fst hs3) = mset (fst hs)"
    "data_of (snd hs3) = data_of (snd hs)" "fst hs3 ! n = fst hs ! nat i"
    using up_frame[OF il] l2 lt by (auto simp: hs3_def)
  have ne: "fst hs3 \<noteq> []" using l3 lt by auto
  show ?thesis
    using Pop_frame[OF ne] mset_butlast[OF ne] l3 eq
    by (cases "Pop hs3") (auto simp: n_def)
qed

section \<open>Removal from the heap and \<open>MakePermanent\<close>\<close>

lemma do_Remove_Inr:
  assumes "do_Remove t i = Inr t'"
  shows "0 \<le> i \<and> nat i < length (expHeap t) \<and>
         (\<exists>hs'. t' = with_heap t hs' \<and>
            mset (fst hs') = mset (expHeap t) - {# expHeap t ! nat i #} \<and>
            data_of (snd hs') = data_of (store t))"
proof -
  have rng: "0 \<le> i \<and> nat i < length (expHeap t)"
    using assms
    by (auto simp: do_Remove_def heap_Remove_def heap_of_def Len_def split: if_splits)
  then obtain hs' where "heap_Remove (heap_of t) i = Inr (hs', expHeap t ! nat i)"
    "mset (fst hs') = mset (expHeap t) - {# expHeap t ! nat i #}"
    "data_of (snd hs') = data_of (store t)"
    using heap_Remove_spec[of i "heap_of t"] by (auto simp: heap_of_def)
  moreover from this(1) assms have "t' = with_heap t hs'" by (simp add: do_Remove_def)
  ultimately show ?thesis using rng by blast
qed



lemma set_ExpiresAt_same: "ExpiresAt (store t a) = e \<Longrightarrow> set_ExpiresAt t a e = t"
  by (auto simp: set_ExpiresAt_def)

lemma MakePermanent_already:
  "items t key = Some a \<Longrightarrow> ExpiresAt (store t a) = ElementPermanent \<Longrightarrow>
     MakePermanent_temap t key = Inr (t, True) \<and> MakePermanent_main t key = Inr (t, True)"
  by (simp add: MakePermanent_temap_def MakePermanent_main_def set_ExpiresAt_same)




section \<open>Counters and bulk removal\<close>

lemma heap_Init_empty: "heap_Init ([], m) = ([], m)"
  by (simp add: heap_Init_def Len_def)

text \<open>
  C10. \<open>RemoveAll\<close> leaves the four cumulative counters \<open>added\<close>, \<open>removed\<close>, \<open>expired\<close> and
  \<open>permanent\<close> as they were, in the fields and in the map returned by \<open>Stats\<close>: the
  entries cleared in bulk are not counted as removed. The key map and the heap are empty
  afterwards, so the \<open>current\<close> entry of \<open>Stats\<close> and \<open>Size\<close> are zero.
\<close>

theorem RemoveAll_keeps_counters:
  "stats_added (RemoveAll t) = stats_added t \<and>
   stats_removed (RemoveAll t) = stats_removed t \<and>
   stats_expired (RemoveAll t) = stats_expired t \<and>
   stats_permanent (RemoveAll t) = stats_permanent t \<and>
   Stats (RemoveAll t) ''added'' = Stats t ''added'' \<and>
   Stats (RemoveAll t) ''removed'' = Stats t ''removed'' \<and>
   Stats (RemoveAll t) ''expired'' = Stats t ''expired'' \<and>
   Stats (RemoveAll t) ''permanent'' = Stats t ''permanent'' \<and>
   Stats (RemoveAll t) ''current'' = Some 0 \<and>
   Size (RemoveAll t) = 0 \<and>
   items (RemoveAll t) = Map.empty \<and>
   expHeap (RemoveAll t) = []"
  by (simp add: RemoveAll_def with_heap_def heap_Init_empty Stats_def Size_def)

section \<open>\<open>MakePermanent\<close> is idempotent\<close>




section \<open>\<open>Get\<close>\<close>

lemma Get_frame: "fst (Get t key) = t"
  by (simp add: Get_def split: option.splits)

lemma Get_absent: "items t key = None \<Longrightarrow> snd (Get t key) = (None, ElementDoesntExist, False)"
  by (simp add: Get_def)

lemma Get_present:
  "items t key = Some a \<Longrightarrow>
     snd (Get t key) = (Some (Value (store t a)), ExpiresAt (store t a), True)"
  by (simp add: Get_def)

text \<open>
  C8. \<open>Get\<close> returns the map it was given. For an absent key the result is
  \<open>(nil, ElementDoesntExist, false)\<close>; for a present key it is the element's value, its
  expiry and \<open>true\<close>, also when the expiry is at or before a clock reading \<open>now\<close>: the
  key is still in the key map and the heap is as before.
\<close>

theorem Get_reads_only:
  "fst (Get t key) = t \<and>
   (items t key = None \<longrightarrow> snd (Get t key) = (None, ElementDoesntExist, False)) \<and>
   (\<forall>a. items t key = Some a \<longrightarrow>
      snd (Get t key) = (Some (Value (store t a)), ExpiresAt (store t a), True)) \<and>
   (\<forall>a now. items t key = Some a \<and> ExpiresAt (store t a) \<le> UnixNano now \<longrightarrow>
      snd (snd (snd (Get t key))) \<and> items (fst (Get t key)) key = Some a \<and>
      expHeap (fst (Get t key)) = expHeap t)"
  by (simp add: Get_frame Get_absent Get_present)

theorem Get_reads_only_witness:
  "fst (Get one_temporary ''a'') = one_temporary \<and>
   ExpiresAt (store one_temporary 0) \<le> UnixNano 1000 \<and>
   snd (Get one_temporary ''a'') = (Some 1, 100, True) \<and>
   items (fst (Get one_temporary ''a'')) ''a'' = Some 0 \<and>
   snd (Get one_temporary ''b'') = (None, - 1, False)"
proof -
  have a: "items one_temporary ''a'' = Some 0" and b: "items one_temporary ''b'' = None"
    and e: "ExpiresAt (store one_temporary 0) \<le> UnixNano 1000"
    by (simp_all add: one_temporary_def UnixNano_def)
  from Get_reads_only[of one_temporary "''a''"] a e
  have 1: "fst (Get one_temporary ''a'') = one_temporary"
    "snd (Get one_temporary ''a'') = (Some (Value (store one_temporary 0)), ExpiresAt (store one_temporary 0), True)"
    "items (fst (Get one_temporary ''a'')) ''a'' = Some 0"
    by blast+
  from Get_reads_only[of one_temporary "''b''"] b
  have 2: "snd (Get one_temporary ''b'') = (None, ElementDoesntExist, False)" by blast
  from 1 2 e show ?thesis by (simp add: one_temporary_def ElementDoesntExist_def)
qed

section \<open>\<open>SetWithTTL\<close>\<close>

lemma SetPermanent_temap_Get:
  "snd (Get (SetPermanent_temap t key val) key) = (Some val, ElementPermanent, True)"
  by (simp add: Get_def SetPermanent_temap_def set_ExpiresAt_def set_Value_def new_element_def
      Let_def split: option.splits)

lemma SetPermanent_main_Get:
  assumes "SetPermanent_main t key val = Inr t'"
  shows "snd (Get t' key) = (Some val, ElementPermanent, True)"
proof (cases "items t key")
  case None
  with assms show ?thesis
    by (auto simp: Get_def SetPermanent_main_def new_element_def Let_def)
next
  case (Some a)
  define t1 where "t1 = set_Value t a val"
  have t1: "items t1 = items t" "Value (store t1 a) = val"
    by (simp_all add: t1_def set_Value_def)
  from assms Some obtain t3 where t3: "t' = set_ExpiresAt t3 a ElementPermanent"
    and c: "t3 = t1 \<or> (\<exists>u. do_Remove t1 (index (store t1 a)) = Inr u \<and>
                t3 = u\<lparr>stats_permanent := stats_permanent u + 1\<rparr>) \<or>
            t3 = t1\<lparr>stats_permanent := stats_permanent t1 + 1\<rparr>"
    by (auto simp: SetPermanent_main_def Let_def t1_def split: sum.splits if_splits)
  have "items t3 = items t1 \<and> Value (store t3 a) = Value (store t1 a)"
    using c
  proof (elim disjE exE conjE)
    fix u assume u: "do_Remove t1 (index (store t1 a)) = Inr u"
      and e: "t3 = u\<lparr>stats_permanent := stats_permanent u + 1\<rparr>"
    from do_Remove_Inr[OF u] obtain hs' where "u = with_heap t1 hs'"
      "data_of (snd hs') = data_of (store t1)" by blast
    then show ?thesis using data_of_fields(2)[of "snd hs'" "store t1" a]
      by (simp add: e with_heap_def)
  qed simp_all
  with t1 Some show ?thesis
    by (simp add: Get_def t3 set_ExpiresAt_def)
qed

text \<open>
  C7. For \<open>ttl \<le> 0\<close>, \<open>SetWithTTL\<close> is \<open>SetPermanent\<close> on the same key and value, in both
  packages, so the resulting states are equal; reading the key back gives the value, the
  permanent sentinel and \<open>true\<close>. For \<open>ttl > 0\<close> it is \<open>SetTemporary\<close> with the expiry
  \<open>now + ttl\<close>.
\<close>

theorem SetWithTTL_delegates:
  "(ttl \<le> 0 \<longrightarrow>
      SetWithTTL_temap t key val ttl now = Inr (SetPermanent_temap t key val) \<and>
      SetWithTTL_main t key val ttl now = SetPermanent_main t key val \<and>
      snd (Get (SetPermanent_temap t key val) key) = (Some val, ElementPermanent, True) \<and>
      (\<forall>t'. SetPermanent_main t key val = Inr t' \<longrightarrow>
            snd (Get t' key) = (Some val, ElementPermanent, True))) \<and>
   (0 < ttl \<longrightarrow>
      SetWithTTL_temap t key val ttl now = SetTemporary_temap t key val (now + ttl) \<and>
      SetWithTTL_main t key val ttl now = SetTemporary_main t key val (now + ttl))"
  using SetPermanent_main_Get[of t key val]
  by (simp add: SetWithTTL_temap_def SetWithTTL_main_def Add_def SetPermanent_temap_Get)

theorem SetWithTTL_delegates_witness:
  "SetWithTTL_temap one_temporary ''b'' 7 0 1000 = Inr (SetPermanent_temap one_temporary ''b'' 7) \<and>
   SetWithTTL_main one_temporary ''b'' 7 (- 1) 1000 = SetPermanent_main one_temporary ''b'' 7 \<and>
   snd (Get (SetPermanent_temap one_temporary ''b'' 7) ''b'') = (Some 7, 0, True) \<and>
   SetWithTTL_temap one_temporary ''b'' 7 5 1000 = SetTemporary_temap one_temporary ''b'' 7 1005 \<and>
   SetWithTTL_main one_temporary ''b'' 7 5 1000 = SetTemporary_main one_temporary ''b'' 7 1005"
  using SetWithTTL_delegates[where ttl = 0 and t = one_temporary and key = "''b''" and val = 7 and now = 1000]
    SetWithTTL_delegates[where ttl = "- 1" and t = one_temporary and key = "''b''" and val = 7 and now = 1000]
    SetWithTTL_delegates[where ttl = 5 and t = one_temporary and key = "''b''" and val = 7 and now = 1000]
  by (simp add: ElementPermanent_def)

section \<open>\<open>SetExpiry\<close> with an instant that has passed\<close>

lemma removed_from_distinct:
  assumes "distinct h" "mset h' = mset h - {#a#}"
  shows "distinct h' \<and> set h' = set h - {a}"
proof -
  have c: "count (mset h') x = count (mset h) x - (if x = a then 1 else 0)" for x
    using assms(2) by simp
  have le: "count (mset h) x \<le> 1" for x
    using assms(1) by (simp add: distinct_count_atmost_1)
  have le': "count (mset h') x \<le> 1" for x
    using c[of x] le[of x] by simp
  have "count (mset h') x = (if x \<in> set h' then 1 else 0)" for x
  proof (cases "x \<in> set h'")
    case True
    then have "1 \<le> count (mset h') x" by (simp add: Suc_le_eq)
    with le'[of x] have "count (mset h') x = 1" by linarith
    with True show ?thesis by simp
  next
    case False
    then show ?thesis by (simp add: count_eq_zero_iff)
  qed
  then have d: "distinct h'" by (simp add: distinct_count_atmost_1)
  have "x \<in> set h' \<longleftrightarrow> x \<in> set h \<and> x \<noteq> a" for x
  proof -
    have "x \<in> set h' \<longleftrightarrow> count (mset h') x > 0" by simp
    also have "\<dots> \<longleftrightarrow> count (mset h) x > 0 \<and> x \<noteq> a"
      using c[of x] le[of x] by auto
    also have "\<dots> \<longleftrightarrow> x \<in> set h \<and> x \<noteq> a" by simp
    finally show ?thesis .
  qed
  with d show ?thesis by auto
qed

lemma SetExpiry_absent:
  "items t key = None \<Longrightarrow>
     SetExpiry_temap t key e now = Inr (t, False) \<and> SetExpiry_main t key e now = Inr (t, False)"
  by (simp add: SetExpiry_temap_def SetExpiry_main_def)






section \<open>The permanent counter\<close>

lemma do_Fix_with: "do_Fix t i = Inr t' \<Longrightarrow> \<exists>hs. t' = with_heap t hs"
  by (auto simp: do_Fix_def split: sum.splits)

lemma do_Remove_with: "do_Remove t i = Inr t' \<Longrightarrow> \<exists>hs. t' = with_heap t hs"
  by (auto simp: do_Remove_def split: sum.splits)

lemma with_heap_fields [simp]:
  "items (with_heap t hs) = items t"
  "nxt (with_heap t hs) = nxt t"
  "onExpire (with_heap t hs) = onExpire t"
  "stats_added (with_heap t hs) = stats_added t"
  "stats_removed (with_heap t hs) = stats_removed t"
  "stats_expired (with_heap t hs) = stats_expired t"
  "stats_permanent (with_heap t hs) = stats_permanent t"
  "wakeCh (with_heap t hs) = wakeCh t"
  "expireQueue (with_heap t hs) = expireQueue t"
  "expHeap (with_heap t hs) = fst hs"
  "store (with_heap t hs) = snd hs"
  by (simp_all add: with_heap_def)

lemma do_Fix_permanent: "do_Fix t i = Inr t' \<Longrightarrow> stats_permanent t' = stats_permanent t"
  by (auto dest!: do_Fix_with)

lemma do_Remove_permanent: "do_Remove t i = Inr t' \<Longrightarrow> stats_permanent t' = stats_permanent t"
  by (auto dest!: do_Remove_with)

lemma set_fields [simp]:
  "stats_permanent (set_ExpiresAt t a e) = stats_permanent t"
  "stats_permanent (set_Value t a v) = stats_permanent t"
  "stats_permanent (signalCleaner t) = stats_permanent t"
  "items (set_ExpiresAt t a e) = items t"
  "items (set_Value t a v) = items t"
  "items (signalCleaner t) = items t"
  by (simp_all add: set_ExpiresAt_def set_Value_def signalCleaner_def)

lemma do_Push_fields [simp]:
  "items (do_Push t a) = items t"
  "nxt (do_Push t a) = nxt t"
  "onExpire (do_Push t a) = onExpire t"
  "stats_added (do_Push t a) = stats_added t"
  "stats_removed (do_Push t a) = stats_removed t"
  "stats_expired (do_Push t a) = stats_expired t"
  "stats_permanent (do_Push t a) = stats_permanent t"
  "wakeCh (do_Push t a) = wakeCh t"
  "expireQueue (do_Push t a) = expireQueue t"
  by (simp_all add: do_Push_def)

lemma Remove_main_permanent:
  "Remove_main t key = Inr t' \<Longrightarrow> stats_permanent t' = stats_permanent t"
  by (auto simp: Remove_main_def Let_def split: option.splits sum.splits if_splits
      dest!: do_Remove_with)

lemma Remove_temap_permanent:
  "Remove_temap t key = Inr t' \<Longrightarrow> stats_permanent t' = stats_permanent t"
  by (auto simp: Remove_temap_def Let_def split: option.splits sum.splits if_splits
      dest!: do_Remove_with)

lemma SetTemporary_main_permanent:
  assumes "SetTemporary_main t key val e = Inr t'"
  shows "(items t key \<noteq> None \<longrightarrow> stats_permanent t' = stats_permanent t) \<and>
         (stats_permanent t' = stats_permanent t \<or> stats_permanent t' = stats_permanent t + 1)"
  using assms
  by (auto simp: SetTemporary_main_def Let_def set_Value_def set_ExpiresAt_def new_element_def
      signalCleaner_def
      split: option.splits sum.splits if_splits dest!: do_Fix_with)


lemma SetTemporary_temap_permanent:
  assumes "SetTemporary_temap t key val e = Inr t'"
  shows "(items t key \<noteq> None \<longrightarrow> stats_permanent t' = stats_permanent t) \<and>
         (stats_permanent t' = stats_permanent t \<or> stats_permanent t' = stats_permanent t + 1)"
  using assms
  by (auto simp: SetTemporary_temap_def Let_def set_Value_def set_ExpiresAt_def new_element_def
      split: option.splits sum.splits if_splits dest!: do_Fix_with)

lemma SetPermanent_main_permanent:
  "SetPermanent_main t key val = Inr t' \<Longrightarrow>
     stats_permanent t' = stats_permanent t \<or> stats_permanent t' = stats_permanent t + 1"
  by (auto simp: SetPermanent_main_def Let_def set_Value_def set_ExpiresAt_def new_element_def
      split: option.splits sum.splits if_splits dest!: do_Remove_with)

lemma SetPermanent_temap_permanent:
  "stats_permanent (SetPermanent_temap t key val) = stats_permanent t \<or>
   stats_permanent (SetPermanent_temap t key val) = stats_permanent t + 1"
  by (auto simp: SetPermanent_temap_def Let_def set_Value_def set_ExpiresAt_def new_element_def
      split: option.splits)

lemma MakePermanent_main_permanent:
  "MakePermanent_main t key = Inr (t', b) \<Longrightarrow>
     stats_permanent t' = stats_permanent t \<or> stats_permanent t' = stats_permanent t + 1"
  by (auto simp: MakePermanent_main_def Let_def set_ExpiresAt_def
      split: option.splits sum.splits if_splits dest!: do_Remove_with)

lemma MakePermanent_temap_permanent:
  "MakePermanent_temap t key = Inr (t', b) \<Longrightarrow>
     stats_permanent t' = stats_permanent t \<or> stats_permanent t' = stats_permanent t + 1"
  by (auto simp: MakePermanent_temap_def Let_def set_ExpiresAt_def
      split: option.splits sum.splits if_splits dest!: do_Remove_with)

lemma SetExpiry_main_permanent:
  assumes "SetExpiry_main t key e now = Inr (t', b)"
  shows "(\<not> IsZero e \<longrightarrow> stats_permanent t' = stats_permanent t) \<and>
         (stats_permanent t' = stats_permanent t \<or> stats_permanent t' = stats_permanent t + 1)"
proof (cases "items t key")
  case None
  with assms show ?thesis by (simp add: SetExpiry_main_def)
next
  case (Some a)
  show ?thesis
  proof (cases "IsZero e")
    case True
    with assms Some show ?thesis
      by (auto simp: SetExpiry_main_def Let_def split: sum.splits if_splits
          dest: do_Remove_permanent)
  next
    case False
    show ?thesis
    proof (cases "UnixNano e \<le> UnixNano now")
      case True
      with assms Some False show ?thesis
        by (auto simp: SetExpiry_main_def Let_def split: sum.splits if_splits
            dest: do_Remove_permanent)
    next
      case gt: False
      define r where "r =
        (if ExpiresAt (store t a) = ElementPermanent then
           Inr (do_Push (set_ExpiresAt t a (UnixNano e)) a)
         else if index (store t a) \<ge> 0 then
           do_Fix (set_ExpiresAt t a (UnixNano e)) (index (store t a))
         else Inr (set_ExpiresAt t a (UnixNano e)))"
      have eq: "SetExpiry_main t key e now =
        (case r of
           Inl p \<Rightarrow> Inl p
         | Inr t3 \<Rightarrow> Inr (if length (expHeap t3) > 0 \<and> expHeap t3 ! 0 = a
                          then signalCleaner t3 else t3, True))"
        using Some False gt by (simp add: SetExpiry_main_def Let_def r_def)
      with assms obtain t3 where t3: "r = Inr t3"
        "t' = (if length (expHeap t3) > 0 \<and> expHeap t3 ! 0 = a then signalCleaner t3 else t3)"
        by (cases r) auto
      from t3(1) have "stats_permanent t3 = stats_permanent t"
        by (auto simp: r_def split: if_splits dest: do_Fix_permanent)
      with t3(2) show ?thesis by simp
    qed
  qed
qed

lemma SetExpiry_temap_permanent:
  assumes "SetExpiry_temap t key e now = Inr (t', b)"
  shows "(\<not> IsZero e \<longrightarrow> stats_permanent t' = stats_permanent t) \<and>
         (stats_permanent t' = stats_permanent t \<or> stats_permanent t' = stats_permanent t + 1)"
proof (cases "items t key")
  case None
  with assms show ?thesis by (simp add: SetExpiry_temap_def)
next
  case (Some a)
  show ?thesis
  proof (cases "IsZero e")
    case True
    with assms Some show ?thesis
      by (auto simp: SetExpiry_temap_def Let_def split: sum.splits if_splits
          dest: do_Remove_permanent)
  next
    case False
    show ?thesis
    proof (cases "UnixNano e \<le> UnixNano now")
      case True
      with assms Some False show ?thesis
        by (auto simp: SetExpiry_temap_def Let_def split: sum.splits if_splits
            dest: do_Remove_permanent)
    next
      case gt: False
      from assms Some False gt have
        c: "t' = do_Push (set_ExpiresAt t a (UnixNano e)) a \<or>
            do_Fix (set_ExpiresAt t a (UnixNano e)) (index (store t a)) = Inr t' \<or>
            t' = set_ExpiresAt t a (UnixNano e)"
        by (auto simp: SetExpiry_temap_def Let_def split: sum.splits if_splits)
      from c have "stats_permanent t' = stats_permanent t"
        by (auto dest: do_Fix_permanent)
      then show ?thesis by simp
    qed
  qed
qed

lemma drain_unfold:
  "drain t now acc =
     (if length (expHeap t) > 0 \<and> ExpiresAt (store t (expHeap t ! 0)) \<le> now then
        (case heap_Pop (heap_of t) of
           Inl p \<Rightarrow> Inl p
         | Inr (hs, el) \<Rightarrow> drain (expire_popped t hs el) now (acc @ [el]))
      else Inr (t, acc))"
  by (subst drain.simps) simp

lemma expire_popped_fields [simp]:
  "stats_permanent (expire_popped t hs el) = stats_permanent t"
  "stats_added (expire_popped t hs el) = stats_added t"
  "stats_removed (expire_popped t hs el) = stats_removed t"
  "stats_expired (expire_popped t hs el) = stats_expired t + 1"
  "expHeap (expire_popped t hs el) = fst hs"
  "store (expire_popped t hs el) = snd hs"
  "items (expire_popped t hs el) = (items t)(Key (snd hs el) := None)"
  by (simp_all add: expire_popped_def Let_def)

lemma drain_permanent:
  "drain t now acc = Inr (t', ex) \<Longrightarrow> stats_permanent t' = stats_permanent t"
proof (induction t now acc rule: drain.induct)
  case (1 t now acc)
  show ?case
  proof (cases "length (expHeap t) > 0 \<and> ExpiresAt (store t (expHeap t ! 0)) \<le> now")
    case False
    with "1.prems" show ?thesis by (subst (asm) drain_unfold) auto
  next
    case True
    from "1.prems" True obtain hs el where p: "heap_Pop (heap_of t) = Inr (hs, el)"
      and d: "drain (expire_popped t hs el) now (acc @ [el]) = Inr (t', ex)"
      by (subst (asm) drain_unfold) (auto split: sum.splits)
    from "1.IH"[OF True p refl d] show ?thesis by simp
  qed
qed

lemma dispatch_main_permanent:
  "dispatch_main t els = Inr (t', evs) \<Longrightarrow> stats_permanent t' = stats_permanent t"
proof (induction els arbitrary: t t' evs)
  case Nil
  then show ?case by simp
next
  case (Cons el els)
  show ?case
  proof (cases "length (expireQueue t) < 1024")
    case True
    with Cons.prems obtain evs' where
      "dispatch_main (t\<lparr>expireQueue := expireQueue t @ [el]\<rparr>) els = Inr (t', evs')"
      by (auto split: sum.splits)
    from Cons.IH[OF this] show ?thesis by simp
  next
    case False
    with Cons.prems obtain evs' where "dispatch_main t els = Inr (t', evs')"
      by (auto split: sum.splits option.splits)
    from Cons.IH[OF this] show ?thesis by simp
  qed
qed

lemma cleaner_pass_main_permanent:
  "cleaner_pass_main t now1 now2 = Inr (t', evs) \<Longrightarrow> stats_permanent t' = stats_permanent t"
  by (auto simp: cleaner_pass_main_def Let_def split: if_splits sum.splits
      dest!: drain_permanent dispatch_main_permanent)

lemma cleaner_pass_temap_permanent:
  "cleaner_pass_temap t now1 now2 = Inr (t', evs) \<Longrightarrow> stats_permanent t' = stats_permanent t"
  by (auto simp: cleaner_pass_temap_def Let_def split: if_splits sum.splits
      dest!: drain_permanent)

lemma drop_result_Inr: "drop_result r = Inr t' \<Longrightarrow> \<exists>b. r = Inr (t', b)"
  by (auto simp: drop_result_def split: sum.splits)

lemma apply_main_permanent:
  assumes "apply_main t x = Inr t'"
  shows "stats_permanent t' = stats_permanent t \<or> stats_permanent t' = stats_permanent t + 1"
proof (cases x)
  case (Op_SetPermanent k v)
  with assms SetPermanent_main_permanent[of t k v t'] show ?thesis by simp
next
  case (Op_SetTemporary k v e)
  with assms SetTemporary_main_permanent[of t k v e t'] show ?thesis by simp
next
  case (Op_SetWithTTL k v d now)
  with assms SetPermanent_main_permanent[of t k v t']
    SetTemporary_main_permanent[of t k v "Add now d" t']
  show ?thesis by (simp add: SetWithTTL_main_def split: if_splits)
next
  case (Op_Remove k)
  with assms Remove_main_permanent[of t k t'] show ?thesis by simp
next
  case Op_RemoveAll
  with assms show ?thesis by (auto simp: RemoveAll_def)
next
  case (Op_MakePermanent k)
  with assms show ?thesis by (auto dest!: drop_result_Inr MakePermanent_main_permanent)
next
  case (Op_SetExpiry k e now)
  with assms show ?thesis by (auto dest!: drop_result_Inr SetExpiry_main_permanent)
next
  case (Op_Get k)
  with assms show ?thesis by (auto simp: Get_def split: option.splits)
next
  case (Op_Cleaner now1 now2)
  with assms show ?thesis by (auto dest!: drop_result_Inr cleaner_pass_main_permanent)
qed

lemma run_main_permanent:
  "run_main t xs = Inr t' \<Longrightarrow> unat (stats_permanent t) + length xs < 2 ^ 64 \<Longrightarrow>
     unat (stats_permanent t) \<le> unat (stats_permanent t') \<and>
     unat (stats_permanent t') \<le> unat (stats_permanent t) + length xs"
proof (induction xs arbitrary: t)
  case Nil
  then show ?case by simp
next
  case (Cons x xs)
  from Cons.prems(1) obtain t1 where t1: "apply_main t x = Inr t1" "run_main t1 xs = Inr t'"
    by (auto split: sum.splits)
  from apply_main_permanent[OF t1(1)]
  have s: "unat (stats_permanent t) \<le> unat (stats_permanent t1) \<and>
           unat (stats_permanent t1) \<le> unat (stats_permanent t) + 1"
  proof
    assume "stats_permanent t1 = stats_permanent t"
    then show ?thesis by simp
  next
    assume e: "stats_permanent t1 = stats_permanent t + 1"
    have "unat (stats_permanent t) + unat (1 :: 64 word) < 2 ^ LENGTH(64)"
      using Cons.prems(2) by simp
    from unat_add_lem[THEN iffD1, OF this]
    have "unat (stats_permanent t + 1) = unat (stats_permanent t) + 1"
      by simp
    with e show ?thesis by simp
  qed
  with Cons.prems(2) have "unat (stats_permanent t1) + length xs < 2 ^ 64" by simp
  from Cons.IH[OF t1(2) this] s show ?case by simp
qed

lemma New_main_fields:
  "New_main m cb w = \<lparr>items = Map.empty, expHeap = [], store = m, nxt = 0, onExpire = cb,
      stats_added = 0, stats_removed = 0, stats_expired = 0, stats_permanent = 0,
      wakeCh = False, expireQueue = [],
      expireWorkers = (if w \<le> 0 then 4 else w)\<rparr>"
  by (simp add: New_main_def heap_Init_empty)

lemma New_temap_fields:
  "New_temap m cb = \<lparr>items = Map.empty, expHeap = [], store = m, nxt = 0, onExpire = cb,
      stats_added = 0, stats_removed = 0, stats_expired = 0, stats_permanent = 0,
      wakeCh = False, expireQueue = [], expireWorkers = 0\<rparr>"
  by (simp add: New_temap_def heap_Init_empty)

text \<open>
  C9. In package \<open>main\<close> no operation and no turn of the cleaner decrements the permanent
  counter: each leaves it or adds one. \<open>Remove\<close> and \<open>RemoveAll\<close> leave it, also when the
  removed entry is permanent; \<open>SetExpiry\<close> with a non-zero instant and \<open>SetTemporary\<close> on
  a present key leave it, also when the entry was permanent. Over a sequence of
  operations that is too short to wrap the \<open>uint64\<close> the counter never falls, and
  \<open>Stats\<close> reports the counter, not the number of permanent entries.
\<close>

theorem permanent_counter_never_decremented:
  "(\<forall>t'. apply_main t x = Inr t' \<longrightarrow>
      stats_permanent t' = stats_permanent t \<or> stats_permanent t' = stats_permanent t + 1) \<and>
   (\<forall>t'. Remove_main t key = Inr t' \<longrightarrow> stats_permanent t' = stats_permanent t) \<and>
   stats_permanent (RemoveAll t) = stats_permanent t \<and>
   (\<forall>t' b. SetExpiry_main t key e now = Inr (t', b) \<and> \<not> IsZero e \<longrightarrow>
      stats_permanent t' = stats_permanent t) \<and>
   (\<forall>t'. SetTemporary_main t key val e = Inr t' \<and> items t key \<noteq> None \<longrightarrow>
      stats_permanent t' = stats_permanent t) \<and>
   (\<forall>t'. run_main t xs = Inr t' \<and> unat (stats_permanent t) + length xs < 2 ^ 64 \<longrightarrow>
      stats_permanent t \<le> stats_permanent t') \<and>
   Stats t ''permanent'' = Some (stats_permanent t)"
proof (intro conjI allI impI)
  show "stats_permanent t' = stats_permanent t \<or> stats_permanent t' = stats_permanent t + 1"
    if "apply_main t x = Inr t'" for t'
    using apply_main_permanent[OF that] .
  show "stats_permanent t' = stats_permanent t" if "Remove_main t key = Inr t'" for t'
    using Remove_main_permanent[OF that] .
  show "stats_permanent (RemoveAll t) = stats_permanent t"
    by (simp add: RemoveAll_def)
  show "stats_permanent t' = stats_permanent t"
    if "SetExpiry_main t key e now = Inr (t', b) \<and> \<not> IsZero e" for t' b
    using SetExpiry_main_permanent[of t key e now t' b] that by simp
  show "stats_permanent t' = stats_permanent t"
    if "SetTemporary_main t key val e = Inr t' \<and> items t key \<noteq> None" for t'
    using SetTemporary_main_permanent[of t key val e t'] that by simp
  show "stats_permanent t \<le> stats_permanent t'"
    if "run_main t xs = Inr t' \<and> unat (stats_permanent t) + length xs < 2 ^ 64" for t'
    using run_main_permanent[of t xs t'] that by (simp add: word_le_nat_alt)
  show "Stats t ''permanent'' = Some (stats_permanent t)"
    by (simp add: Stats_def)
qed

theorem permanent_counter_never_decremented_witness:
  "\<exists>t'. run_main (New_main blank_store None 0) [Op_SetPermanent ''p'' 1, Op_Remove ''p''] = Inr t' \<and>
        unat (stats_permanent (New_main blank_store None 0)) + 2 < (2 :: nat) ^ 64 \<and>
        stats_permanent (New_main blank_store None 0) \<le> stats_permanent t' \<and>
        stats_permanent t' = 1 \<and> Stats t' ''permanent'' = Some 1 \<and> Size t' = 0"
proof -
  define t0 :: "(string, nat) TimedMap" where "t0 = New_main blank_store None 0"
  define t' where "t' = t0\<lparr>items := Map.empty,
      store := blank_store(0 := \<lparr>Key = ''p'', Value = 1, ExpiresAt = 0, index = 0\<rparr>),
      nxt := 1, stats_added := 1, stats_removed := 1, stats_permanent := 1\<rparr>"
  have r: "run_main t0 [Op_SetPermanent ''p'' 1, Op_Remove ''p''] = Inr t'"
    by (simp add: t0_def t'_def New_main_fields SetPermanent_main_def Remove_main_def
        new_element_def ElementPermanent_def Let_def)
  have n: "unat (stats_permanent t0) + length [Op_SetPermanent ''p'' (1::nat), Op_Remove ''p''] < 2 ^ 64"
    by (simp add: t0_def New_main_fields)
  from permanent_counter_never_decremented[of t0 _ _ _ _ _ "[Op_SetPermanent ''p'' 1, Op_Remove ''p'']"] r n
  have "stats_permanent t0 \<le> stats_permanent t'" by blast
  moreover have "stats_permanent t' = 1" "Stats t' ''permanent'' = Some 1" "Size t' = 0"
    by (simp_all add: t'_def Stats_def Size_def)
  ultimately show ?thesis using r n unfolding t0_def by auto
qed

section \<open>Inputs on which the code departs from the specification\<close>

lemma up_zero: "up hs 0 = hs"
  by (subst up.simps) simp

lemma down_loop_leaf: "n \<le> 2 * i + 1 \<Longrightarrow> down_loop hs i n = (hs, i)"
  by (subst down_loop.simps) simp

lemma drain_stop:
  "\<not> (length (expHeap t) > 0 \<and> ExpiresAt (store t (expHeap t ! 0)) \<le> now) \<Longrightarrow>
     drain t now acc = Inr (t, acc)"
  by (subst drain_unfold) auto

lemma heap_Pop_single:
  "heap_Pop ([a], m) = Inr (([], m(a := (m a)\<lparr>index := - 1\<rparr>)), a)"
  by (simp add: heap_Pop_def Len_def Swap_def down_def down_loop_leaf Pop_def Let_def)

text \<open>
  C1 fails in package \<open>temap\<close>. \<open>SetPermanent\<close> on a key that is temporary writes the
  sentinel expiry and leaves the element in the heap, where \<open>MakePermanent\<close> of the same
  package and \<open>SetPermanent\<close> of package \<open>main\<close> take it out. After \<open>SetTemporary\<close> and
  \<open>SetPermanent\<close> on one key the key is permanent and its element is still at position
  \<open>0\<close> of the heap; the next turn of the cleaner pops it, deletes the permanent key and
  counts it as expired.
\<close>

theorem SetPermanent_temap_then_cleaner:
  "run_temap (New_temap blank_store None)
       [Op_SetTemporary ''a'' 1 2000000000000000000, Op_SetPermanent ''a'' 2] =
     Inr ((New_temap blank_store None)
       \<lparr>items := [''a'' \<mapsto> 0], expHeap := [0],
        store := blank_store(0 := \<lparr>Key = ''a'', Value = 2, ExpiresAt = ElementPermanent, index = 0\<rparr>),
        nxt := 1, stats_added := 1\<rparr>) \<and>
   run_temap (New_temap blank_store None)
       [Op_SetTemporary ''a'' 1 2000000000000000000, Op_SetPermanent ''a'' 2,
        Op_Cleaner 1000 1000] =
     Inr ((New_temap blank_store None)
       \<lparr>items := Map.empty, expHeap := [],
        store := blank_store(0 := \<lparr>Key = ''a'', Value = 2, ExpiresAt = ElementPermanent, index = - 1\<rparr>),
        nxt := 1, stats_added := 1, stats_expired := 1\<rparr>)"
  by (simp add: New_temap_fields SetTemporary_temap_def SetPermanent_temap_def UnixNano_def
      new_element_def ElementPermanent_def Let_def do_Push_def heap_Push_def heap_of_def
      with_heap_def Push_def Len_def up_zero set_ExpiresAt_def set_Value_def
      cleaner_pass_temap_def drop_result_def drain_unfold[of _ _ "[]"] heap_Pop_single
      expire_popped_def drain_stop dispatch_temap_def)

text \<open>
  C2 fails in both packages on a key that is permanent. In package \<open>temap\<close>
  \<open>SetTemporary\<close> writes the new expiry and calls \<open>heap.Fix\<close> at the element's index
  \<open>0\<close>, which pushes nothing: the key is temporary and outside the heap. In package
  \<open>main\<close> the test \<open>el.ExpiresAt != ElementPermanent\<close> skips the update: the key stays
  permanent. \<open>SetExpiry\<close> of either package pushes the element in this case.
\<close>

theorem SetTemporary_on_permanent_key:
  "run_temap (New_temap blank_store None)
       [Op_SetPermanent ''a'' 1, Op_SetTemporary ''a'' 2 2000000000000000000] =
     Inr ((New_temap blank_store None)
       \<lparr>items := [''a'' \<mapsto> 0], expHeap := [],
        store := blank_store(0 := \<lparr>Key = ''a'', Value = 2, ExpiresAt = 2000000000000000000, index = 0\<rparr>),
        nxt := 1, stats_added := 1, stats_permanent := 1\<rparr>) \<and>
   run_main (New_main blank_store None 0)
       [Op_SetPermanent ''a'' 1, Op_SetTemporary ''a'' 2 2000000000000000000] =
     Inr ((New_main blank_store None 0)
       \<lparr>items := [''a'' \<mapsto> 0], expHeap := [],
        store := blank_store(0 := \<lparr>Key = ''a'', Value = 2, ExpiresAt = ElementPermanent, index = 0\<rparr>),
        nxt := 1, stats_added := 1, stats_permanent := 1\<rparr>)"
  by (simp add: New_temap_fields New_main_fields SetTemporary_temap_def SetPermanent_temap_def
      SetTemporary_main_def SetPermanent_main_def UnixNano_def
      new_element_def ElementPermanent_def Let_def do_Fix_def heap_Fix_def heap_of_def
      with_heap_def Len_def set_ExpiresAt_def set_Value_def)

lemma dispatch_main_overflow:
  "onExpire t = None \<Longrightarrow> length (expireQueue t) \<le> 1024 \<Longrightarrow>
     1024 < length (expireQueue t) + length els \<Longrightarrow> dispatch_main t els = Inl NilFuncCall"
proof (induction els arbitrary: t)
  case Nil
  then show ?case by simp
next
  case (Cons el els)
  show ?case
  proof (cases "length (expireQueue t) < 1024")
    case True
    have "dispatch_main (t\<lparr>expireQueue := expireQueue t @ [el]\<rparr>) els = Inl NilFuncCall"
      using Cons.prems True by (intro Cons.IH) simp_all
    with True show ?thesis by simp
  next
    case False
    with Cons.prems show ?thesis by simp
  qed
qed

text \<open>
  C5 fails in package \<open>main\<close>. When the worker queue is full the cleaner starts a
  goroutine that calls \<open>onExpire\<close> without the test for nil that the workers make, so a
  map built with a nil callback panics: on 1025 due elements sent to the empty queue while
  no worker receives, and in a turn of the cleaner that finds one due element and the
  queue full.
\<close>

theorem nil_callback_overflow_panics:
  "dispatch_main (New_main m None w) (replicate 1025 a) = Inl NilFuncCall \<and>
   cleaner_pass_main (one_temporary\<lparr>expireQueue := replicate 1024 0\<rparr>) 1000 1000 =
     Inl NilFuncCall"
proof
  show "dispatch_main (New_main m None w) (replicate 1025 a) = Inl NilFuncCall"
    by (rule dispatch_main_overflow) (simp_all add: New_main_fields)
  show "cleaner_pass_main (one_temporary\<lparr>expireQueue := replicate 1024 0\<rparr>) 1000 1000 =
     Inl NilFuncCall"
    by (simp add: cleaner_pass_main_def one_temporary_def UnixNano_def Let_def
        drain_unfold[of _ _ "[]"] heap_of_def heap_Pop_single expire_popped_def with_heap_def
        drain_stop)
qed

section \<open>The drain pass of the cleaner\<close>

lemma length_expiries [simp]: "length (expiries hs) = length (fst hs)"
  by (simp add: expiries_def)

lemma nth_expiries:
  "i < length (fst hs) \<Longrightarrow> expiries hs ! i = ExpiresAt (snd hs (fst hs ! i))"
  by (simp add: expiries_def)

lemma heap_ordered_iff: "heap_ordered hs \<longleftrightarrow> ordered_upto (expiries hs) (length (fst hs))"
proof -
  have "(c - 1) div 2 < length (fst hs)" if "c < length (fst hs)" for c
    using that by simp
  then show ?thesis
    by (auto simp: heap_ordered_def ordered_upto_def nth_expiries)
qed

lemma Less_expiries:
  "i < length (fst hs) \<Longrightarrow> j < length (fst hs) \<Longrightarrow>
     Less hs i j \<longleftrightarrow> expiries hs ! i < expiries hs ! j"
  by (simp add: Less_def nth_expiries)

lemma expiries_cong:
  "fst hs' = fst hs \<Longrightarrow> data_of (snd hs') = data_of (snd hs) \<Longrightarrow> expiries hs' = expiries hs"
  using data_of_fields(3)[of "snd hs'" "snd hs"] by (simp add: expiries_def)

lemma expiries_Swap:
  assumes "i < length (fst hs)" "j < length (fst hs)"
  shows "expiries (Swap hs i j) = (expiries hs)[i := expiries hs ! j, j := expiries hs ! i]"
proof -
  have "expiries (Swap hs i j) = map (\<lambda>a. ExpiresAt (snd hs a)) (fst (Swap hs i j))"
    using data_of_fields(3)[OF data_Swap, of hs i j] by (simp add: expiries_def)
  also have "\<dots> = (expiries hs)[i := expiries hs ! j, j := expiries hs ! i]"
    using assms by (simp add: fst_Swap expiries_def map_update)
  finally show ?thesis .
qed

lemma child_parent: "0 < c \<Longrightarrow> (c - 1) div 2 = i \<longleftrightarrow> c = 2 * i + 1 \<or> c = 2 * i + 2"
  for c i :: nat
  by arith

lemma ordered_after_swap:
  fixes ks :: "int list"
  assumes ex: "ordered_except ks n i"
    and j: "j = 2 * i + 1 \<or> j = 2 * i + 2" "j < n" "n \<le> length ks"
    and lt: "ks ! j < ks ! i"
    and sib: "\<forall>c<n. c = 2 * i + 1 \<or> c = 2 * i + 2 \<longrightarrow> ks ! j \<le> ks ! c"
  shows "ordered_except (ks[i := ks ! j, j := ks ! i]) n j"
  unfolding ordered_except_def
proof (intro allI impI)
  fix c
  assume c: "0 < c \<and> c < n"
  define ks' where "ks' = ks[i := ks ! j, j := ks ! i]"
  define p where "p = (c - 1) div 2"
  have ij: "i < j" "i < length ks" "j < length ks" using j by auto
  have pj: "(j - 1) div 2 = i" using j(1) by auto
  have ki: "ks' ! i = ks ! j" and kj: "ks' ! j = ks ! i"
    using ij by (simp_all add: ks'_def)
  have ko: "ks' ! x = ks ! x" if "x \<noteq> i" "x \<noteq> j" for x
    using that by (simp add: ks'_def)
  have pc: "p < c" using c unfolding p_def by arith
  have a: "ks' ! p \<le> ks' ! c" if "p \<noteq> j"
  proof (cases "c = j")
    case True
    then have "p = i" using pj by (simp add: p_def)
    with True ki kj lt show ?thesis by simp
  next
    case cj: False
    show ?thesis
    proof (cases "c = i")
      case True
      then have i0: "0 < i" using c by simp
      have "p \<noteq> i" "p \<noteq> j" using True pc ij by auto
      then have "ks' ! p = ks ! p" by (rule ko)
      moreover have "ks ! ((i - 1) div 2) \<le> ks ! j"
        using ex j(2) pj i0 ij unfolding ordered_except_def by (metis less_trans)
      ultimately show ?thesis using True ki by (simp add: p_def)
    next
      case ci: False
      then have kc: "ks' ! c = ks ! c" using cj by (simp add: ko)
      show ?thesis
      proof (cases "p = i")
        case True
        then have "c = 2 * i + 1 \<or> c = 2 * i + 2"
          using c child_parent[of c i] by (simp add: p_def)
        with sib c have "ks ! j \<le> ks ! c" by blast
        with True ki kc show ?thesis by simp
      next
        case False
        then have "ks' ! p = ks ! p" using that by (simp add: ko)
        moreover have "ks ! p \<le> ks ! c"
          using ex c False unfolding ordered_except_def p_def by blast
        ultimately show ?thesis using kc by simp
      qed
    qed
  qed
  have b: "ks' ! ((j - 1) div 2) \<le> ks' ! c" if "p = j \<and> 0 < j"
  proof -
    have "c \<noteq> i" "c \<noteq> j" using that pc ij by auto
    then have "ks' ! c = ks ! c" by (rule ko)
    moreover have "ks ! j \<le> ks ! c"
      using ex c that ij unfolding ordered_except_def p_def by (metis less_irrefl)
    ultimately show ?thesis using pj ki by simp
  qed
  from a b show "((c - 1) div 2 \<noteq> j \<longrightarrow>
            ks[i := ks ! j, j := ks ! i] ! ((c - 1) div 2) \<le> ks[i := ks ! j, j := ks ! i] ! c) \<and>
           ((c - 1) div 2 = j \<and> 0 < j \<longrightarrow>
            ks[i := ks ! j, j := ks ! i] ! ((j - 1) div 2) \<le> ks[i := ks ! j, j := ks ! i] ! c)"
    by (simp add: ks'_def p_def)
qed

lemma ordered_when_stopped:
  fixes ks :: "int list"
  assumes ex: "ordered_except ks n i"
    and ch: "\<forall>c<n. c = 2 * i + 1 \<or> c = 2 * i + 2 \<longrightarrow> ks ! i \<le> ks ! c"
  shows "ordered_upto ks n"
  unfolding ordered_upto_def
proof (intro allI impI)
  fix c
  assume c: "0 < c \<and> c < n"
  show "ks ! ((c - 1) div 2) \<le> ks ! c"
  proof (cases "(c - 1) div 2 = i")
    case True
    then have "c = 2 * i + 1 \<or> c = 2 * i + 2" using c child_parent[of c i] by simp
    with ch c True show ?thesis by auto
  next
    case False
    with ex c show ?thesis unfolding ordered_except_def by blast
  qed
qed

lemma down_loop_ordered:
  "n \<le> length (fst hs) \<Longrightarrow> ordered_except (expiries hs) n i \<Longrightarrow>
     ordered_upto (expiries (fst (down_loop hs i n))) n"
proof (induction "n - i" arbitrary: hs i rule: less_induct)
  case less
  from down_loop_step[of hs i n]
  consider (stop) "down_loop hs i n = (hs, i)"
      "\<forall>c<n. c = 2 * i + 1 \<or> c = 2 * i + 2 \<longrightarrow> \<not> Less hs c i"
    | (step) j where "i < j" "j < n" "j = 2 * i + 1 \<or> j = 2 * i + 2" "Less hs j i"
      "\<forall>c<n. c = 2 * i + 1 \<or> c = 2 * i + 2 \<longrightarrow> \<not> Less hs c j"
      "down_loop hs i n = down_loop (Swap hs i j) j n"
    by blast
  then show ?case
  proof cases
    case stop
    have "\<forall>c<n. c = 2 * i + 1 \<or> c = 2 * i + 2 \<longrightarrow> expiries hs ! i \<le> expiries hs ! c"
    proof (intro allI impI)
      fix c assume c: "c < n" "c = 2 * i + 1 \<or> c = 2 * i + 2"
      then have l: "i < length (fst hs)" "c < length (fst hs)" using less.prems(1) by auto
      from stop(2) c have "\<not> Less hs c i" by blast
      with l show "expiries hs ! i \<le> expiries hs ! c"
        by (simp add: Less_expiries)
    qed
    from ordered_when_stopped[OF less.prems(2) this] stop(1) show ?thesis by simp
  next
    case (step j)
    have il: "i < length (fst hs)" "j < length (fst hs)" using step less.prems(1) by auto
    have lt: "expiries hs ! j < expiries hs ! i"
      using step(4) il by (simp add: Less_expiries)
    have sib: "\<forall>c<n. c = 2 * i + 1 \<or> c = 2 * i + 2 \<longrightarrow> expiries hs ! j \<le> expiries hs ! c"
    proof (intro allI impI)
      fix c assume c: "c < n" "c = 2 * i + 1 \<or> c = 2 * i + 2"
      then have l: "c < length (fst hs)" using less.prems(1) by auto
      from step(5) c have "\<not> Less hs c j" by blast
      with l il show "expiries hs ! j \<le> expiries hs ! c"
        by (simp add: Less_expiries)
    qed
    have "ordered_except (expiries (Swap hs i j)) n j"
      using ordered_after_swap[OF less.prems(2) step(3) step(2) _ lt sib] less.prems(1) il
      by (simp add: expiries_Swap)
    moreover have "n - j < n - i" using step by simp
    moreover have "n \<le> length (fst (Swap hs i j))" using less.prems(1) by simp
    ultimately have "ordered_upto (expiries (fst (down_loop (Swap hs i j) j n))) n"
      using less.hyps by blast
    with step(6) show ?thesis by simp
  qed
qed

lemma root_minimal:
  assumes "heap_ordered hs" "c < length (fst hs)"
  shows "ExpiresAt (snd hs (fst hs ! 0)) \<le> ExpiresAt (snd hs (fst hs ! c))"
  using assms(2)
proof (induction c rule: less_induct)
  case (less c)
  show ?case
  proof (cases "c = 0")
    case True
    then show ?thesis by simp
  next
    case False
    then have p: "(c - 1) div 2 < c" by arith
    with less.prems have "(c - 1) div 2 < length (fst hs)" by simp
    from less.IH[OF p this]
    have "ExpiresAt (snd hs (fst hs ! 0)) \<le> ExpiresAt (snd hs (fst hs ! ((c - 1) div 2)))" .
    moreover have "ExpiresAt (snd hs (fst hs ! ((c - 1) div 2))) \<le> ExpiresAt (snd hs (fst hs ! c))"
      using assms(1) False less.prems unfolding heap_ordered_def by simp
    ultimately show ?thesis by simp
  qed
qed

lemma root_minimal_set:
  assumes "heap_ordered hs" "a \<in> set (fst hs)"
  shows "ExpiresAt (snd hs (fst hs ! 0)) \<le> ExpiresAt (snd hs a)"
proof -
  from assms(2) obtain c where "c < length (fst hs)" "fst hs ! c = a"
    by (auto simp: in_set_conv_nth)
  with root_minimal[OF assms(1), of c] show ?thesis by simp
qed

lemma heap_Pop_spec:
  assumes "heap_ordered hs" "fst hs \<noteq> []"
  shows "\<exists>hs'. heap_Pop hs = Inr (hs', fst hs ! 0) \<and> heap_ordered hs' \<and>
           mset (fst hs') = mset (fst hs) - {# fst hs ! 0 #} \<and>
           data_of (snd hs') = data_of (snd hs)"
proof -
  define n where "n = length (fst hs) - 1"
  define hs1 where "hs1 = Swap hs 0 n"
  define hs2 where "hs2 = fst (down hs1 0 n)"
  have n: "n < length (fst hs)" using assms(2) by (simp add: n_def)
  have eq: "heap_Pop hs = Inr (Pop hs2)"
    using assms(2) by (simp add: heap_Pop_def Len_def Let_def hs2_def hs1_def n_def)
  have l1: "length (fst hs1) = length (fst hs)" "mset (fst hs1) = mset (fst hs)"
    "data_of (snd hs1) = data_of (snd hs)" "fst hs1 ! n = fst hs ! 0"
    using n assms(2) mset_Swap[of 0 hs n] by (simp_all add: hs1_def fst_Swap del: length_Swap)
  have e1: "expiries hs1 = (expiries hs)[0 := expiries hs ! n, n := expiries hs ! 0]"
    using n assms(2) by (simp add: hs1_def expiries_Swap)
  have ex: "ordered_except (expiries hs1) n 0"
    unfolding ordered_except_def
  proof (intro allI impI conjI)
    fix c assume c: "0 < c \<and> c < n" and p: "(c - 1) div 2 \<noteq> 0"
    have "(c - 1) div 2 < c" using c by arith
    then have "(c - 1) div 2 \<noteq> n" "c \<noteq> n" "c \<noteq> 0" using c by auto
    with p have "expiries hs1 ! ((c - 1) div 2) = expiries hs ! ((c - 1) div 2)"
      "expiries hs1 ! c = expiries hs ! c"
      by (simp_all add: e1)
    moreover have "expiries hs ! ((c - 1) div 2) \<le> expiries hs ! c"
      using assms(1) c n unfolding heap_ordered_iff ordered_upto_def by simp
    ultimately show "expiries hs1 ! ((c - 1) div 2) \<le> expiries hs1 ! c" by simp
  qed simp
  have nle: "n \<le> length (fst hs1)" using n l1 by simp
  have o2: "ordered_upto (expiries hs2) n"
    using down_loop_ordered[OF nle ex] by (simp add: hs2_def down_def split_beta)
  have l2: "length (fst hs2) = length (fst hs)" "mset (fst hs2) = mset (fst hs)"
    "data_of (snd hs2) = data_of (snd hs)" "fst hs2 ! n = fst hs ! 0"
    using down_frame(1-3)[OF nle, of 0] down_frame(4)[OF nle, of n 0] l1
    by (simp_all add: hs2_def)
  have ne: "fst hs2 \<noteq> []" using l2 n by auto
  define hs' where "hs' = fst (Pop hs2)"
  have p: "Pop hs2 = (hs', fst hs ! 0)" "fst hs' = butlast (fst hs2)"
    "data_of (snd hs') = data_of (snd hs)"
    using Pop_frame[OF ne] l2 by (simp_all add: hs'_def n_def prod_eq_iff)
  have len': "length (fst hs') = n" using p(2) l2 by (simp add: n_def)
  have e': "expiries hs' ! c = expiries hs2 ! c" if "c < n" for c
  proof -
    have "expiries hs' ! c = ExpiresAt (snd hs' (fst hs' ! c))"
      using that len' by (simp add: nth_expiries)
    also have "\<dots> = ExpiresAt (snd hs2 (fst hs2 ! c))"
      using that len' p(2) data_of_fields(3)[of "snd hs'" "snd hs2"] p(3) l2(3)
      by (simp add: nth_butlast)
    also have "\<dots> = expiries hs2 ! c"
      using that n l2 by (simp add: nth_expiries)
    finally show ?thesis .
  qed
  have "ordered_upto (expiries hs') n"
    unfolding ordered_upto_def
  proof (intro allI impI)
    fix c assume c: "0 < c \<and> c < n"
    then have "(c - 1) div 2 < n" by arith
    with c e' o2 show "expiries hs' ! ((c - 1) div 2) \<le> expiries hs' ! c"
      unfolding ordered_upto_def by simp
  qed
  then have "heap_ordered hs'" using len' by (simp add: heap_ordered_iff)
  moreover have "mset (fst hs') = mset (fst hs) - {# fst hs ! 0 #}"
    using mset_butlast[OF ne] p(2) l2 by (simp add: n_def)
  ultimately show ?thesis using eq p by auto
qed

lemma heap_of_expire_popped [simp]: "heap_of (expire_popped t hs el) = hs"
  by (simp add: heap_of_def)

lemma expire_popped_more [simp]:
  "onExpire (expire_popped t hs el) = onExpire t"
  "expireQueue (expire_popped t hs el) = expireQueue t"
  by (simp_all add: expire_popped_def Let_def)

lemma drain_spec:
  "heap_ordered (heap_of t) \<Longrightarrow>
     \<exists>t' ex. drain t now acc = Inr (t', acc @ ex) \<and> drained_step t now ex t'"
proof (induction "length (expHeap t)" arbitrary: t acc rule: less_induct)
  case less
  show ?case
  proof (cases "length (expHeap t) > 0 \<and> ExpiresAt (store t (expHeap t ! 0)) \<le> now")
    case False
    have "list_all (\<lambda>a. \<not> ExpiresAt (store t a) \<le> now) (expHeap t)"
    proof (cases "expHeap t = []")
      case True
      then show ?thesis by simp
    next
      case ne: False
      with False have r: "\<not> ExpiresAt (store t (expHeap t ! 0)) \<le> now" by simp
      have "ExpiresAt (store t (expHeap t ! 0)) \<le> ExpiresAt (store t a)"
        if "a \<in> set (expHeap t)" for a
        using root_minimal_set[OF less.prems, of a] that by (simp add: heap_of_def)
      with r show ?thesis by (fastforce simp: list_all_iff)
    qed
    then have "drained_step t now [] t"
      using less.prems by (simp add: drained_step_def)
    moreover have "drain t now acc = Inr (t, acc @ [])"
      using drain_stop[OF False] by simp
    ultimately show ?thesis by blast
  next
    case True
    then have ne: "fst (heap_of t) \<noteq> []" by (auto simp: heap_of_def)
    from heap_Pop_spec[OF less.prems ne] obtain hs' where
      hs': "heap_Pop (heap_of t) = Inr (hs', expHeap t ! 0)" "heap_ordered hs'"
        "mset (fst hs') = mset (expHeap t) - {# expHeap t ! 0 #}"
        "data_of (snd hs') = data_of (store t)"
      by (auto simp: heap_of_def)
    define el where "el = expHeap t ! 0"
    define t1 where "t1 = expire_popped t hs' el"
    have el_in: "el \<in> set (expHeap t)" using True by (simp add: el_def)
    have m: "mset (expHeap t) = {#el#} + mset (fst hs')"
      using hs'(3) el_in by (simp add: el_def)
    have len: "length (expHeap t1) < length (expHeap t)"
    proof -
      have "size (mset (expHeap t)) = size ({#el#} + mset (fst hs'))" using m by simp
      then show ?thesis by (simp add: t1_def)
    qed
    have o1: "heap_ordered (heap_of t1)" using hs'(2) by (simp add: t1_def)
    from less.hyps[OF len o1, of "acc @ [el]"] obtain t' ex' where
      d: "drain t1 now (acc @ [el]) = Inr (t', (acc @ [el]) @ ex')"
      and s: "drained_step t1 now ex' t'"
      by blast
    have step: "drain t now acc = drain t1 now (acc @ [el])"
      using True hs'(1) by (subst drain_unfold) (simp add: t1_def el_def)
    have ea: "ExpiresAt (store t1 a) = ExpiresAt (store t a)"
      and ka: "Key (store t1 a) = Key (store t a)" for a
      using data_of_fields[of "store t1" "store t" a] hs'(4) by (simp_all add: t1_def)
    have sub: "set ex' \<subseteq> set (expHeap t)"
    proof -
      have "set_mset (mset ex') \<subseteq> set_mset (mset (expHeap t1))"
        using s by (simp add: drained_step_def)
      moreover have "set_mset (mset (expHeap t1)) \<subseteq> set_mset (mset (expHeap t))"
        using m by (auto simp: t1_def)
      ultimately show ?thesis by simp
    qed
    have le: "ExpiresAt (store t el) \<le> ExpiresAt (store t a)" if "a \<in> set ex'" for a
      using root_minimal_set[OF less.prems, of a] that sub by (auto simp: heap_of_def el_def)
    have "drained_step t now (el # ex') t'"
      unfolding drained_step_def
    proof (intro conjI)
      show "mset (expHeap t) = mset (el # ex') + mset (expHeap t')"
        using s m by (simp add: drained_step_def t1_def)
      show "list_all (\<lambda>a. ExpiresAt (store t a) \<le> now) (el # ex')"
        using s True by (simp add: drained_step_def ea el_def)
      show "list_all (\<lambda>a. \<not> ExpiresAt (store t a) \<le> now) (expHeap t')"
        using s by (simp add: drained_step_def ea)
      show "sorted (map (\<lambda>a. ExpiresAt (store t a)) (el # ex'))"
        using s le by (auto simp: drained_step_def ea)
      show "items t' = (\<lambda>k. if k \<in> (\<lambda>a. Key (store t a)) ` set (el # ex') then None else items t k)"
      proof -
        have kk: "Key (snd hs' a) = Key (store t a)" for a
          using data_of_fields(1)[OF hs'(4), of a] .
        from s have "items t' =
            (\<lambda>k. if k \<in> (\<lambda>a. Key (store t1 a)) ` set ex' then None else items t1 k)"
          by (simp add: drained_step_def)
        then show ?thesis
          by (auto simp: ka t1_def kk fun_eq_iff)
      qed
      show "data_of (store t') = data_of (store t)"
        using s hs'(4) by (simp add: drained_step_def t1_def)
      show "heap_ordered (heap_of t')" using s by (simp add: drained_step_def)
      show "stats_expired t' = stats_expired t + of_nat (length (el # ex'))"
        using s by (simp add: drained_step_def t1_def)
      show "stats_added t' = stats_added t" using s by (simp add: drained_step_def t1_def)
      show "stats_removed t' = stats_removed t" using s by (simp add: drained_step_def t1_def)
      show "stats_permanent t' = stats_permanent t" using s by (simp add: drained_step_def t1_def)
      show "onExpire t' = onExpire t" using s by (simp add: drained_step_def t1_def)
      show "expireQueue t' = expireQueue t" using s by (simp add: drained_step_def t1_def)
    qed
    moreover have "drain t now acc = Inr (t', acc @ el # ex')"
      using step d by simp
    ultimately show ?thesis by blast
  qed
qed

lemma three_temporary_reached:
  "run_main (New_main blank_store None 0)
     [Op_SetTemporary ''a'' 1 100, Op_SetTemporary ''b'' 2 50, Op_SetTemporary ''c'' 3 200] =
   Inr three_temporary"
  by (simp add: three_temporary_def New_main_fields SetTemporary_main_def UnixNano_def
      new_element_def ElementPermanent_def Let_def do_Push_def heap_Push_def heap_of_def
      with_heap_def Push_def Len_def up_zero up.simps[of _ 1] up.simps[of _ 2] up.simps[of _ "Suc 0"] up.simps[of _ "Suc (Suc 0)"] Less_def Swap_def
      signalCleaner_def numeral_2_eq_2)








section \<open>\<open>up\<close> and \<open>heap.Fix\<close> restore the order\<close>

lemma ordered_after_swap_up:
  fixes ks :: "int list"
  assumes ex: "ordered_except_up ks n j"
    and j: "0 < j" "j < n" "n \<le> length ks"
    and lt: "ks ! j < ks ! ((j - 1) div 2)"
  shows "ordered_except_up (ks[(j - 1) div 2 := ks ! j, j := ks ! ((j - 1) div 2)]) n ((j - 1) div 2)"
  unfolding ordered_except_up_def
proof (intro allI impI)
  fix c
  assume c: "0 < c \<and> c < n"
  define i where "i = (j - 1) div 2"
  define ks' where "ks' = ks[i := ks ! j, j := ks ! i]"
  define p where "p = (c - 1) div 2"
  have ij: "i < j" "i < length ks" "j < length ks" using j unfolding i_def by auto
  have ki: "ks' ! i = ks ! j" and kj: "ks' ! j = ks ! i"
    using ij by (simp_all add: ks'_def)
  have ko: "ks' ! x = ks ! x" if "x \<noteq> i" "x \<noteq> j" for x
    using that by (simp add: ks'_def)
  have pc: "p < c" using c unfolding p_def by arith
  have pi: "(i - 1) div 2 < i" if "0 < i" using that by arith
  have hyp1: "ks ! ((x - 1) div 2) \<le> ks ! x" if "0 < x" "x < n" "x \<noteq> j" for x
    using ex that unfolding ordered_except_up_def by blast
  have hyp2: "ks ! i \<le> ks ! x" if "0 < x" "x < n" "(x - 1) div 2 = j" for x
    using ex that j(1) unfolding ordered_except_up_def i_def by blast
  have a: "ks' ! p \<le> ks' ! c" if "c \<noteq> i"
  proof (cases "c = j")
    case True
    then have "p = i" by (simp add: p_def i_def)
    with True ki kj lt show ?thesis by (simp add: i_def)
  next
    case cj: False
    have kc: "ks' ! c = ks ! c" using cj that by (simp add: ko)
    show ?thesis
    proof (cases "p = i")
      case True
      have "ks ! i \<le> ks ! c" using hyp1[of c] c cj True by (simp add: p_def)
      with True ki kc lt show ?thesis by (simp add: i_def)
    next
      case pni: False
      show ?thesis
      proof (cases "p = j")
        case True
        have "ks ! i \<le> ks ! c" using hyp2[of c] c True by (simp add: p_def)
        with True kj kc show ?thesis by simp
      next
        case False
        then have "ks' ! p = ks ! p" using pni by (simp add: ko)
        moreover have "ks ! p \<le> ks ! c" using hyp1[of c] c cj by (simp add: p_def)
        ultimately show ?thesis using kc by simp
      qed
    qed
  qed
  have b: "ks' ! ((i - 1) div 2) \<le> ks' ! c" if "p = i \<and> 0 < i"
  proof -
    have i0: "0 < i" using that by simp
    have "(i - 1) div 2 \<noteq> i" "(i - 1) div 2 \<noteq> j" using pi[OF i0] ij by auto
    then have kp: "ks' ! ((i - 1) div 2) = ks ! ((i - 1) div 2)" by (rule ko)
    have pii: "ks ! ((i - 1) div 2) \<le> ks ! i"
      using hyp1[of i] i0 ij j by simp
    show ?thesis
    proof (cases "c = j")
      case True
      with kp kj pii show ?thesis by simp
    next
      case False
      have "c \<noteq> i" using that pc by auto
      then have "ks' ! c = ks ! c" using False by (simp add: ko)
      moreover have "ks ! i \<le> ks ! c" using hyp1[of c] c False that by (simp add: p_def)
      ultimately show ?thesis using kp pii by simp
    qed
  qed
  from a b show "(c \<noteq> (j - 1) div 2 \<longrightarrow>
            ks[(j - 1) div 2 := ks ! j, j := ks ! ((j - 1) div 2)] ! ((c - 1) div 2)
              \<le> ks[(j - 1) div 2 := ks ! j, j := ks ! ((j - 1) div 2)] ! c) \<and>
           ((c - 1) div 2 = (j - 1) div 2 \<and> 0 < (j - 1) div 2 \<longrightarrow>
            ks[(j - 1) div 2 := ks ! j, j := ks ! ((j - 1) div 2)] ! (((j - 1) div 2 - 1) div 2)
              \<le> ks[(j - 1) div 2 := ks ! j, j := ks ! ((j - 1) div 2)] ! c)"
    by (simp add: ks'_def p_def i_def)
qed

lemma up_ordered:
  "j < n \<Longrightarrow> n \<le> length (fst hs) \<Longrightarrow> ordered_except_up (expiries hs) n j \<Longrightarrow>
     ordered_upto (expiries (up hs j)) n"
proof (induction j arbitrary: hs rule: less_induct)
  case (less j)
  define i where "i = (j - 1) div 2"
  from up_step[of hs j]
  consider (stop) "up hs j = hs" "j = 0 \<or> \<not> Less hs j i"
    | (step) "0 < j" "Less hs j i" "up hs j = up (Swap hs i j) i"
    unfolding i_def by blast
  then show ?case
  proof cases
    case stop
    have "ordered_upto (expiries hs) n"
      unfolding ordered_upto_def
    proof (intro allI impI)
      fix c assume c: "0 < c \<and> c < n"
      show "expiries hs ! ((c - 1) div 2) \<le> expiries hs ! c"
      proof (cases "c = j")
        case True
        with c stop(2) have "\<not> Less hs j i" by auto
        moreover have "i < length (fst hs)" "j < length (fst hs)"
          using less.prems unfolding i_def by auto
        ultimately show ?thesis using True by (simp add: Less_expiries i_def)
      next
        case False
        with less.prems(3) c show ?thesis unfolding ordered_except_up_def by blast
      qed
    qed
    with stop(1) show ?thesis by simp
  next
    case step
    have il: "i < j" "i < length (fst hs)" "j < length (fst hs)"
      using step(1) less.prems unfolding i_def by auto
    have lt: "expiries hs ! j < expiries hs ! ((j - 1) div 2)"
      using step(2) il by (simp add: Less_expiries i_def)
    have "ordered_except_up (expiries (Swap hs i j)) n i"
      using ordered_after_swap_up[OF less.prems(3) step(1) less.prems(1) _ lt] less.prems(2) il
      by (simp add: expiries_Swap i_def)
    moreover have "i < n" using il less.prems by simp
    moreover have "n \<le> length (fst (Swap hs i j))" using less.prems by simp
    ultimately have "ordered_upto (expiries (up (Swap hs i j) i)) n"
      using less.IH[OF il(1)] by blast
    with step(3) show ?thesis by simp
  qed
qed

lemma up_when_ordered:
  assumes "ordered_upto (expiries hs) n" "j < n" "n \<le> length (fst hs)"
  shows "up hs j = hs"
proof -
  from up_step[of hs j]
  consider (stop) "up hs j = hs"
    | (step) "0 < j" "Less hs j ((j - 1) div 2)"
    by blast
  then show ?thesis
  proof cases
    case stop
    then show ?thesis .
  next
    case step
    have "(j - 1) div 2 < length (fst hs)" "j < length (fst hs)" using assms by auto
    with step(2) have "expiries hs ! j < expiries hs ! ((j - 1) div 2)"
      by (simp add: Less_expiries)
    moreover have "expiries hs ! ((j - 1) div 2) \<le> expiries hs ! j"
      using assms(1,2) step(1) unfolding ordered_upto_def by blast
    ultimately show ?thesis by simp
  qed
qed

lemma down_loop_when_small:
  assumes "0 < i" "i < n" "n \<le> length (fst hs)"
    and "ordered_but (expiries hs) n i"
    and "expiries hs ! i < expiries hs ! ((i - 1) div 2)"
  shows "down_loop hs i n = (hs, i)"
proof -
  have ch: "\<not> Less hs c i" if "c < n" "c = 2 * i + 1 \<or> c = 2 * i + 2" for c
  proof -
    have "0 < c" "(c - 1) div 2 = i" using that by auto
    with assms(4) that(1) assms(1)
    have "expiries hs ! ((i - 1) div 2) \<le> expiries hs ! c"
      unfolding ordered_but_def by blast
    with assms(5) have "expiries hs ! i < expiries hs ! c" by simp
    moreover have "c < length (fst hs)" "i < length (fst hs)" using that assms by auto
    ultimately show ?thesis by (simp add: Less_expiries)
  qed
  from down_loop_step[of hs i n] show ?thesis
    using ch by blast
qed

lemma fix_ordered:
  assumes "i < n" "n \<le> length (fst hs)" "ordered_but (expiries hs) n i"
  shows "ordered_upto
           (expiries (if \<not> snd (down hs i n) then up (fst (down hs i n)) i
                      else fst (down hs i n))) n"
proof (cases "0 < i \<and> expiries hs ! i < expiries hs ! ((i - 1) div 2)")
  case True
  then have d: "down_loop hs i n = (hs, i)"
    using down_loop_when_small[OF _ assms] by simp
  have "ordered_except_up (expiries hs) n i"
    unfolding ordered_except_up_def
  proof (intro allI impI conjI)
    fix c assume c: "0 < c \<and> c < n" and ci: "c \<noteq> i"
    show "expiries hs ! ((c - 1) div 2) \<le> expiries hs ! c"
    proof (cases "(c - 1) div 2 = i")
      case pi: True
      with assms(3) c True have "expiries hs ! ((i - 1) div 2) \<le> expiries hs ! c"
        unfolding ordered_but_def by blast
      with True pi show ?thesis by simp
    next
      case False
      with assms(3) c ci show ?thesis unfolding ordered_but_def by blast
    qed
  next
    fix c assume "0 < c \<and> c < n" "(c - 1) div 2 = i \<and> 0 < i"
    with assms(3) show "expiries hs ! ((i - 1) div 2) \<le> expiries hs ! c"
      unfolding ordered_but_def by blast
  qed
  from up_ordered[OF assms(1,2) this] d show ?thesis by (simp add: down_def)
next
  case False
  have "ordered_except (expiries hs) n i"
    unfolding ordered_except_def
  proof (intro allI impI conjI)
    fix c assume c: "0 < c \<and> c < n" and pi: "(c - 1) div 2 \<noteq> i"
    show "expiries hs ! ((c - 1) div 2) \<le> expiries hs ! c"
    proof (cases "c = i")
      case True
      with False c show ?thesis by auto
    next
      case ci: False
      with assms(3) c pi show ?thesis unfolding ordered_but_def by blast
    qed
  next
    fix c assume "0 < c \<and> c < n" "(c - 1) div 2 = i \<and> 0 < i"
    with assms(3) show "expiries hs ! ((i - 1) div 2) \<le> expiries hs ! c"
      unfolding ordered_but_def by blast
  qed
  from down_loop_ordered[OF assms(2) this]
  have o: "ordered_upto (expiries (fst (down hs i n))) n" by (simp add: down_def split_beta)
  have "n \<le> length (fst (fst (down hs i n)))" using down_frame(1)[OF assms(2)] assms(2) by simp
  from up_when_ordered[OF o assms(1) this] o show ?thesis by simp
qed

section \<open>The heap functions keep the \<open>index\<close> fields\<close>

lemma indexed_Swap:
  assumes "indexed hs" "i < length (fst hs)" "j < length (fst hs)"
  shows "indexed (Swap hs i j)"
proof -
  define h where "h = fst hs"
  define m where "m = snd hs"
  define h' where "h' = h[i := h ! j, j := h ! i]"
  from assms(1) have d: "distinct h" and ix: "\<And>k. k < length h \<Longrightarrow> index (m (h ! k)) = int k"
    by (simp_all add: indexed_def h_def m_def)
  have ij: "i < length h" "j < length h" using assms by (simp_all add: h_def)
  have d': "distinct h'" using d ij by (simp add: h'_def)
  have hi: "h' ! i = (if i = j then h ! i else h ! j)" and hj: "h' ! j = h ! i"
    using ij by (auto simp: h'_def)
  have ho: "h' ! k = h ! k" if "k \<noteq> i" "k \<noteq> j" for k
    using that by (simp add: h'_def)
  have sw: "Swap hs i j =
      (h', (m(h' ! i := (m (h' ! i))\<lparr>index := int i\<rparr>))
             (h' ! j := ((m(h' ! i := (m (h' ! i))\<lparr>index := int i\<rparr>)) (h' ! j))\<lparr>index := int j\<rparr>))"
    by (simp add: Swap_def Let_def h_def m_def h'_def)
  have "index (snd (Swap hs i j) (h' ! k)) = int k" if k: "k < length h" for k
  proof -
    have lh: "length h' = length h" by (simp add: h'_def)
    have neq1: "h' ! k \<noteq> h' ! i" if "k \<noteq> i"
      using d' k ij that lh by (simp add: nth_eq_iff_index_eq)
    have neq2: "h' ! k \<noteq> h' ! j" if "k \<noteq> j"
      using d' k ij that lh by (simp add: nth_eq_iff_index_eq)
    consider "k = j" | "k \<noteq> j" "k = i" | "k \<noteq> j" "k \<noteq> i" by blast
    then show ?thesis
    proof cases
      case 1
      then show ?thesis by (simp add: sw)
    next
      case 2
      with neq2 show ?thesis by (simp add: sw)
    next
      case 3
      with neq1 neq2 ho[of k] ix[OF k] show ?thesis by (simp add: sw)
    qed
  qed
  moreover have "fst (Swap hs i j) = h'" "length h' = length h"
    by (simp_all add: sw h'_def)
  ultimately show ?thesis
    using d' by (simp add: indexed_def)
qed

lemma indexed_down_loop:
  "n \<le> length (fst hs) \<Longrightarrow> indexed hs \<Longrightarrow> indexed (fst (down_loop hs i n))"
proof (induction "n - i" arbitrary: hs i rule: less_induct)
  case less
  from down_loop_step[of hs i n]
  consider (stop) "down_loop hs i n = (hs, i)"
    | (step) j where "i < j" "j < n" "down_loop hs i n = down_loop (Swap hs i j) j n"
    by blast
  then show ?case
  proof cases
    case stop
    with less.prems show ?thesis by simp
  next
    case (step j)
    have "indexed (Swap hs i j)"
      using indexed_Swap[OF less.prems(2), of i j] step less.prems(1) by simp
    moreover have "n - j < n - i" using step by simp
    moreover have "n \<le> length (fst (Swap hs i j))" using less.prems(1) by simp
    ultimately have "indexed (fst (down_loop (Swap hs i j) j n))"
      using less.hyps by blast
    with step(3) show ?thesis by simp
  qed
qed

lemma indexed_up:
  "j < length (fst hs) \<Longrightarrow> indexed hs \<Longrightarrow> indexed (up hs j)"
proof (induction j arbitrary: hs rule: less_induct)
  case (less j)
  from up_step[of hs j]
  consider (stop) "up hs j = hs"
    | (step) "0 < j" "up hs j = up (Swap hs ((j - 1) div 2) j) ((j - 1) div 2)"
    by blast
  then show ?case
  proof cases
    case stop
    with less.prems show ?thesis by simp
  next
    case step
    have lt: "(j - 1) div 2 < j" using step(1) by arith
    have "indexed (Swap hs ((j - 1) div 2) j)"
      using indexed_Swap[OF less.prems(2), of "(j - 1) div 2" j] lt less.prems(1) by simp
    moreover have "(j - 1) div 2 < length (fst (Swap hs ((j - 1) div 2) j))"
      using lt less.prems(1) by simp
    ultimately have "indexed (up (Swap hs ((j - 1) div 2) j) ((j - 1) div 2))"
      using less.IH[OF lt] by blast
    with step(2) show ?thesis by simp
  qed
qed

lemma indexed_Push:
  assumes "indexed hs" "a \<notin> set (fst hs)"
  shows "indexed (Push hs a)"
proof -
  have "index (snd (Push hs a) (fst (Push hs a) ! k)) = int k"
    if "k < length (fst (Push hs a))" for k
  proof (cases "k = length (fst hs)")
    case True
    then show ?thesis by (simp add: Push_def)
  next
    case False
    with that have k: "k < length (fst hs)" by (simp add: Push_def)
    then have "fst hs ! k \<noteq> a" using assms(2) by (metis nth_mem)
    with k assms(1) show ?thesis by (simp add: Push_def nth_append indexed_def)
  qed
  with assms show ?thesis by (simp add: indexed_def) (simp add: Push_def)
qed

lemma indexed_Pop:
  assumes "indexed hs" "fst hs \<noteq> []"
  shows "indexed (fst (Pop hs))"
proof -
  define n where "n = length (fst hs) - 1"
  have d: "distinct (fst hs)" using assms(1) by (simp add: indexed_def)
  have "index (snd (fst (Pop hs)) (fst (fst (Pop hs)) ! k)) = int k"
    if "k < length (fst (fst (Pop hs)))" for k
  proof -
    from that have k: "k < n" by (simp add: Pop_def Let_def n_def)
    then have "fst hs ! k \<noteq> fst hs ! n"
      using d assms(2) by (simp add: nth_eq_iff_index_eq n_def)
    with k assms(1) show ?thesis
      by (simp add: Pop_def Let_def nth_butlast indexed_def n_def)
  qed
  moreover have "distinct (fst (fst (Pop hs)))"
    using d by (simp add: Pop_def Let_def distinct_butlast)
  ultimately show ?thesis by (simp add: indexed_def)
qed

lemma expiries_Push:
  "expiries (Push hs a) = expiries hs @ [ExpiresAt (snd hs a)]"
  by (simp add: expiries_def Push_def)

lemma heap_Push_wf:
  assumes "heap_wf hs" "a \<notin> set (fst hs)"
  shows "heap_wf (heap_Push hs a) \<and>
         mset (fst (heap_Push hs a)) = add_mset a (mset (fst hs)) \<and>
         data_of (snd (heap_Push hs a)) = data_of (snd hs)"
proof -
  define hs1 where "hs1 = Push hs a"
  define n where "n = length (fst hs)"
  have l1: "length (fst hs1) = Suc n" "mset (fst hs1) = add_mset a (mset (fst hs))"
    "data_of (snd hs1) = data_of (snd hs)"
    by (simp_all add: hs1_def Push_def n_def)
  have eq: "heap_Push hs a = up hs1 n"
    by (simp add: heap_Push_def Len_def hs1_def Push_def n_def)
  have i1: "indexed hs1" using indexed_Push[of hs a] assms by (simp add: heap_wf_def hs1_def)
  have o: "ordered_upto (expiries hs) n"
    using assms(1) by (simp add: heap_wf_def heap_ordered_iff n_def)
  have "ordered_except_up (expiries hs1) (Suc n) n"
    unfolding ordered_except_up_def
  proof (intro allI impI conjI)
    fix c assume c: "0 < c \<and> c < Suc n" and cn: "c \<noteq> n"
    then have "c < n" by simp
    moreover from this have "(c - 1) div 2 < n" by arith
    ultimately show "expiries hs1 ! ((c - 1) div 2) \<le> expiries hs1 ! c"
      using o c by (simp add: hs1_def expiries_Push nth_append n_def ordered_upto_def)
  next
    fix c assume c: "0 < c \<and> c < Suc n" and "(c - 1) div 2 = n \<and> 0 < n"
    then have False by arith
    then show "expiries hs1 ! ((n - 1) div 2) \<le> expiries hs1 ! c" ..
  qed
  from up_ordered[OF _ _ this] l1 have "ordered_upto (expiries (up hs1 n)) (Suc n)" by simp
  moreover have f: "length (fst (up hs1 n)) = Suc n" "mset (fst (up hs1 n)) = mset (fst hs1)"
    "data_of (snd (up hs1 n)) = data_of (snd hs1)"
    using up_frame[of n hs1] l1 by simp_all
  ultimately have "heap_ordered (up hs1 n)" by (simp add: heap_ordered_iff)
  moreover have "indexed (up hs1 n)" using indexed_up[OF _ i1, of n] l1 by simp
  ultimately show ?thesis using f l1 by (simp add: eq heap_wf_def)
qed

lemma ordered_upto_butlast:
  assumes "ordered_upto (expiries hs2) n" "fst hs' = butlast (fst hs2)"
    "data_of (snd hs') = data_of (snd hs2)" "length (fst hs2) = Suc n"
  shows "heap_ordered hs'"
proof -
  have len': "length (fst hs') = n" using assms(2,4) by simp
  have e': "expiries hs' ! c = expiries hs2 ! c" if "c < n" for c
  proof -
    have "expiries hs' ! c = ExpiresAt (snd hs' (fst hs' ! c))"
      using that len' by (simp add: nth_expiries)
    also have "\<dots> = ExpiresAt (snd hs2 (fst hs2 ! c))"
      using that len' assms(2) data_of_fields(3)[OF assms(3)]
      by (simp add: nth_butlast)
    also have "\<dots> = expiries hs2 ! c"
      using that assms(4) by (simp add: nth_expiries)
    finally show ?thesis .
  qed
  have "ordered_upto (expiries hs') n"
    unfolding ordered_upto_def
  proof (intro allI impI)
    fix c assume c: "0 < c \<and> c < n"
    then have "(c - 1) div 2 < n" by arith
    with c e' assms(1) show "expiries hs' ! ((c - 1) div 2) \<le> expiries hs' ! c"
      unfolding ordered_upto_def by simp
  qed
  then show ?thesis using len' by (simp add: heap_ordered_iff)
qed

lemma heap_Pop_indexed:
  assumes "indexed hs" "heap_Pop hs = Inr (hs', x)"
  shows "indexed hs'"
proof -
  from assms(2) have ne: "fst hs \<noteq> []"
    by (auto simp: heap_Pop_def Len_def split: if_splits)
  define n where "n = length (fst hs) - 1"
  define hs2 where "hs2 = fst (down (Swap hs 0 n) 0 n)"
  have n: "n < length (fst hs)" using ne by (simp add: n_def)
  from assms(2) ne have e: "hs' = fst (Pop hs2)"
    by (simp add: heap_Pop_def Len_def Let_def hs2_def n_def)
  have "indexed (Swap hs 0 n)" using indexed_Swap[OF assms(1), of 0 n] n ne by simp
  then have "indexed hs2"
    using indexed_down_loop[of n "Swap hs 0 n" 0] n by (simp add: hs2_def down_def split_beta)
  moreover have "fst hs2 \<noteq> []"
    using down_frame(1)[of n "Swap hs 0 n" 0] n ne by (auto simp: hs2_def)
  ultimately show ?thesis using indexed_Pop by (simp add: e)
qed

lemma heap_Remove_wf:
  assumes "heap_wf hs" "0 \<le> i" "nat i < length (fst hs)"
  shows "\<exists>hs'. heap_Remove hs i = Inr (hs', fst hs ! nat i) \<and> heap_wf hs' \<and>
           mset (fst hs') = mset (fst hs) - {# fst hs ! nat i #} \<and>
           data_of (snd hs') = data_of (snd hs)"
proof -
  from heap_Remove_spec[OF assms(2,3)] obtain hs' where
    r: "heap_Remove hs i = Inr (hs', fst hs ! nat i)"
    and m: "mset (fst hs') = mset (fst hs) - {# fst hs ! nat i #}"
    and dd: "data_of (snd hs') = data_of (snd hs)"
    by blast
  define n where "n = length (fst hs) - 1"
  have ne: "fst hs \<noteq> []" using assms(3) by auto
  have o: "ordered_upto (expiries hs) (length (fst hs))" and ix: "indexed hs"
    using assms(1) by (simp_all add: heap_wf_def heap_ordered_iff)
  have "heap_wf hs'"
  proof (cases "n = nat i")
    case True
    with r assms have e: "hs' = fst (Pop hs)"
      by (simp add: heap_Remove_def Len_def n_def)
    have "ordered_upto (expiries hs) n" using o unfolding ordered_upto_def n_def by auto
    moreover have "fst hs' = butlast (fst hs)" "data_of (snd hs') = data_of (snd hs)"
      using Pop_frame[OF ne] by (simp_all add: e)
    moreover have "length (fst hs) = Suc n" using ne by (simp add: n_def)
    ultimately have "heap_ordered hs'" by (rule ordered_upto_butlast)
    moreover have "indexed hs'" using indexed_Pop[OF ix ne] by (simp add: e)
    ultimately show ?thesis by (simp add: heap_wf_def)
  next
    case False
    define k where "k = nat i"
    define hs1 where "hs1 = Swap hs k n"
    define hs3 where "hs3 = (if \<not> snd (down hs1 k n) then up (fst (down hs1 k n)) k
                              else fst (down hs1 k n))"
    have kn: "k < n" "n < length (fst hs)" using assms(3) False by (auto simp: n_def k_def)
    from r assms False have "Pop hs3 = (hs', fst hs ! nat i)"
      by (simp add: heap_Remove_def Len_def Let_def split_beta hs3_def hs1_def n_def k_def
          split del: if_split cong: if_cong)
    then have e: "hs' = fst (Pop hs3)" by simp
    have e1: "expiries hs1 = (expiries hs)[k := expiries hs ! n, n := expiries hs ! k]"
      using kn by (simp add: hs1_def expiries_Swap)
    have ob: "ordered_but (expiries hs1) n k"
      unfolding ordered_but_def
    proof (intro allI impI conjI)
      fix c assume c: "0 < c \<and> c < n" and ck: "c \<noteq> k \<and> (c - 1) div 2 \<noteq> k"
      have "(c - 1) div 2 < c" using c by arith
      then have "(c - 1) div 2 \<noteq> n" "c \<noteq> n" using c by auto
      with ck have "expiries hs1 ! ((c - 1) div 2) = expiries hs ! ((c - 1) div 2)"
        "expiries hs1 ! c = expiries hs ! c"
        by (simp_all add: e1)
      moreover have "expiries hs ! ((c - 1) div 2) \<le> expiries hs ! c"
        using o c kn unfolding ordered_upto_def by simp
      ultimately show "expiries hs1 ! ((c - 1) div 2) \<le> expiries hs1 ! c" by simp
    next
      fix c assume c: "0 < c \<and> c < n" and ck: "(c - 1) div 2 = k \<and> 0 < k"
      have kk: "(k - 1) div 2 < k" using ck by arith
      have "c \<noteq> k" "c \<noteq> n" using c ck by auto
      then have 1: "expiries hs1 ! c = expiries hs ! c" by (simp add: e1)
      have 2: "expiries hs1 ! ((k - 1) div 2) = expiries hs ! ((k - 1) div 2)"
        using kk kn by (simp add: e1)
      have "expiries hs ! ((k - 1) div 2) \<le> expiries hs ! k"
        using o ck kn unfolding ordered_upto_def by simp
      moreover have "expiries hs ! k \<le> expiries hs ! c"
        using o c ck kn unfolding ordered_upto_def by (metis less_trans)
      ultimately show "expiries hs1 ! ((k - 1) div 2) \<le> expiries hs1 ! c"
        using 1 2 by simp
    qed
    have l1: "length (fst hs1) = length (fst hs)" by (simp add: hs1_def)
    have nle: "n \<le> length (fst hs1)" using kn l1 by simp
    have o3: "ordered_upto (expiries hs3) n"
      using fix_ordered[OF kn(1) nle ob] unfolding hs3_def .
    have i1: "indexed hs1" using indexed_Swap[OF ix, of k n] kn by (simp add: hs1_def)
    have i2: "indexed (fst (down hs1 k n))"
      using indexed_down_loop[OF nle i1, of k] by (simp add: down_def split_beta)
    have l2: "length (fst (fst (down hs1 k n))) = length (fst hs)"
      using down_frame(1)[OF nle, of k] l1 by simp
    have i3: "indexed hs3"
      using i2 indexed_up[of k "fst (down hs1 k n)"] l2 kn by (simp add: hs3_def)
    have l3: "length (fst hs3) = length (fst hs)"
      using l2 up_frame[of k "fst (down hs1 k n)"] kn by (simp add: hs3_def)
    have ne3: "fst hs3 \<noteq> []" using l3 ne by auto
    have "fst hs' = butlast (fst hs3)" "data_of (snd hs') = data_of (snd hs3)"
      using Pop_frame[OF ne3] by (simp_all add: e)
    moreover have "length (fst hs3) = Suc n" using l3 ne by (simp add: n_def)
    ultimately have "heap_ordered hs'" using o3 ordered_upto_butlast by blast
    moreover have "indexed hs'" using indexed_Pop[OF i3 ne3] by (simp add: e)
    ultimately show ?thesis by (simp add: heap_wf_def)
  qed
  with r m dd show ?thesis by blast
qed

lemma heap_Fix_wf:
  assumes "indexed hs" "i < length (fst hs)" "ordered_but (expiries hs) (length (fst hs)) i"
  shows "\<exists>hs'. heap_Fix hs (int i) = Inr hs' \<and> heap_wf hs' \<and>
           mset (fst hs') = mset (fst hs) \<and> data_of (snd hs') = data_of (snd hs)"
proof -
  define n where "n = length (fst hs)"
  define hs1 where "hs1 = fst (down hs i n)"
  define hs' where "hs' = (if \<not> snd (down hs i n) then up hs1 i else hs1)"
  have e: "heap_Fix hs (int i) = Inr hs'"
    using assms(2) by (simp add: heap_Fix_def Len_def split_beta hs'_def hs1_def n_def)
  have nle: "n \<le> length (fst hs)" by (simp add: n_def)
  have f1: "length (fst hs1) = n" "mset (fst hs1) = mset (fst hs)"
    "data_of (snd hs1) = data_of (snd hs)"
    using down_frame(1-3)[OF nle, of i] by (simp_all add: hs1_def n_def)
  have il: "i < length (fst hs1)" using f1 assms(2) by (simp add: n_def)
  have f: "length (fst hs') = n" "mset (fst hs') = mset (fst hs)"
    "data_of (snd hs') = data_of (snd hs)"
    using up_frame[OF il] f1 by (auto simp: hs'_def)
  have "i < n" "ordered_but (expiries hs) n i" using assms(2,3) by (simp_all add: n_def)
  from fix_ordered[OF this(1) nle this(2)]
  have "ordered_upto (expiries hs') n" unfolding hs'_def hs1_def .
  then have "heap_ordered hs'" using f(1) by (simp add: heap_ordered_iff)
  moreover have "indexed hs1"
    using indexed_down_loop[OF nle assms(1), of i] by (simp add: hs1_def down_def split_beta)
  then have "indexed hs'" using indexed_up[OF il] by (simp add: hs'_def)
  ultimately show ?thesis using e f by (simp add: heap_wf_def)
qed

lemma heap_wf_cong:
  assumes "\<forall>a\<in>set h. ExpiresAt (m' a) = ExpiresAt (m a) \<and> index (m' a) = index (m a)"
  shows "heap_wf (h, m') = heap_wf (h, m)"
proof -
  have "ExpiresAt (m' (h ! c)) = ExpiresAt (m (h ! c)) \<and> index (m' (h ! c)) = index (m (h ! c))"
    if "c < length h" for c
    using assms that by simp
  moreover have "(c - 1) div 2 < length h" if "c < length h" for c
    using that by arith
  ultimately show ?thesis
    by (auto simp: heap_wf_def heap_ordered_def indexed_def)
qed

lemma ordered_but_after_update:
  assumes "heap_wf (h, m)" "i < length h"
  shows "ordered_but (expiries (h, m(h ! i := (m (h ! i))\<lparr>ExpiresAt := e\<rparr>))) (length h) i \<and>
         indexed (h, m(h ! i := (m (h ! i))\<lparr>ExpiresAt := e\<rparr>))"
proof -
  define m' where "m' = m(h ! i := (m (h ! i))\<lparr>ExpiresAt := e\<rparr>)"
  from assms(1) have o: "ordered_upto (expiries (h, m)) (length h)" and ix: "indexed (h, m)"
    by (simp_all add: heap_wf_def heap_ordered_iff)
  have d: "distinct h" using ix by (simp add: indexed_def)
  have same: "expiries (h, m') ! c = expiries (h, m) ! c" if "c < length h" "c \<noteq> i" for c
  proof -
    have "h ! c \<noteq> h ! i" using d that assms(2) by (simp add: nth_eq_iff_index_eq)
    with that show ?thesis by (simp add: nth_expiries m'_def)
  qed
  have "ordered_but (expiries (h, m')) (length h) i"
    unfolding ordered_but_def
  proof (intro allI impI conjI)
    fix c assume c: "0 < c \<and> c < length h" and ck: "c \<noteq> i \<and> (c - 1) div 2 \<noteq> i"
    have "(c - 1) div 2 < length h" using c by arith
    with same c ck o show "expiries (h, m') ! ((c - 1) div 2) \<le> expiries (h, m') ! c"
      unfolding ordered_upto_def by simp
  next
    fix c assume c: "0 < c \<and> c < length h" and ck: "(c - 1) div 2 = i \<and> 0 < i"
    have kk: "(i - 1) div 2 < i" using ck by arith
    have ci: "c \<noteq> i" using c ck by auto
    have "expiries (h, m) ! ((i - 1) div 2) \<le> expiries (h, m) ! i"
      using o ck assms(2) unfolding ordered_upto_def by simp
    moreover have "expiries (h, m) ! i \<le> expiries (h, m) ! c"
      using o c ck unfolding ordered_upto_def by blast
    ultimately show "expiries (h, m') ! ((i - 1) div 2) \<le> expiries (h, m') ! c"
      using same[of c] same[of "(i - 1) div 2"] c ci kk assms(2) by simp
  qed
  moreover have "indexed (h, m')"
    using ix by (auto simp: indexed_def m'_def)
  ultimately show ?thesis by (simp add: m'_def)
qed

section \<open>The heap and the key map\<close>

lemma heap_of_simps [simp]:
  "fst (heap_of t) = expHeap t" "snd (heap_of t) = store t"
  "heap_of (with_heap t hs) = hs"
  by (simp_all add: heap_of_def with_heap_def)

lemma consistent_tracked:
  assumes "consistent t" "items t k = Some a" "ExpiresAt (store t a) \<noteq> ElementPermanent"
  shows "tracked t a" and "distinct (expHeap t)"
    and "ExpiresAt (store t (expHeap t ! 0)) \<le> ExpiresAt (store t a)"
proof -
  from assms have w: "heap_wf (heap_of t)" and a: "a \<in> set (expHeap t)"
    by (auto simp: consistent_def linked_def)
  from a obtain i where i: "i < length (expHeap t)" "expHeap t ! i = a"
    by (auto simp: in_set_conv_nth)
  from w i have "index (store t a) = int i" by (auto simp: heap_wf_def indexed_def)
  with i show "tracked t a" by (simp add: tracked_def)
  from w show "distinct (expHeap t)" by (simp add: heap_wf_def indexed_def)
  from w a root_minimal_set[of "heap_of t" a]
  show "ExpiresAt (store t (expHeap t ! 0)) \<le> ExpiresAt (store t a)"
    by (simp add: heap_wf_def)
qed

lemma take_out:
  assumes "heap_wf (heap_of t)" "tracked t a"
  shows "\<exists>hs. do_Remove t (index (store t a)) = Inr (with_heap t hs) \<and> heap_wf hs \<and>
           set (fst hs) = set (expHeap t) - {a} \<and> data_of (snd hs) = data_of (store t)"
proof -
  from assms(2) have rng: "0 \<le> index (store t a)"
    "nat (index (store t a)) < length (fst (heap_of t))"
    and at: "fst (heap_of t) ! nat (index (store t a)) = a"
    by (simp_all add: tracked_def)
  from heap_Remove_wf[OF assms(1) rng] at obtain hs where
    hs: "heap_Remove (heap_of t) (index (store t a)) = Inr (hs, a)" "heap_wf hs"
      "mset (fst hs) = mset (expHeap t) - {#a#}" "data_of (snd hs) = data_of (store t)"
    by auto
  have d: "distinct (expHeap t)" using assms(1) by (simp add: heap_wf_def indexed_def)
  from removed_from_distinct[OF d hs(3)] have "set (fst hs) = set (expHeap t) - {a}" by simp
  with hs show ?thesis by (intro exI[of _ hs]) (simp add: do_Remove_def)
qed

lemma put_in:
  assumes "heap_wf (heap_of t)" "a \<notin> set (expHeap t)"
  shows "\<exists>hs. do_Push t a = with_heap t hs \<and> heap_wf hs \<and>
           set (fst hs) = insert a (set (expHeap t)) \<and> data_of (snd hs) = data_of (store t)"
proof -
  from heap_Push_wf[of "heap_of t" a] assms
  have "heap_wf (heap_Push (heap_of t) a)"
    "mset (fst (heap_Push (heap_of t) a)) = add_mset a (mset (expHeap t))"
    "data_of (snd (heap_Push (heap_of t) a)) = data_of (store t)"
    by simp_all
  moreover from this(2) have "set (fst (heap_Push (heap_of t) a)) = insert a (set (expHeap t))"
    by (metis set_mset_mset set_mset_add_mset_insert)
  ultimately show ?thesis
    by (intro exI[of _ "heap_Push (heap_of t) a"]) (simp add: do_Push_def)
qed

lemma refix:
  assumes "heap_wf (heap_of t)" "tracked t a"
    and "expHeap t1 = expHeap t"
    and "store t1 = (store t)(a := (store t a)\<lparr>ExpiresAt := e\<rparr>)"
  shows "\<exists>hs. do_Fix t1 (index (store t a)) = Inr (with_heap t1 hs) \<and> heap_wf hs \<and>
           set (fst hs) = set (expHeap t) \<and> data_of (snd hs) = data_of (store t1)"
proof -
  define i where "i = nat (index (store t a))"
  from assms(2) have i: "i < length (expHeap t)" "expHeap t ! i = a" "index (store t a) = int i"
    by (simp_all add: tracked_def i_def)
  have w: "heap_wf (expHeap t, store t)" using assms(1) by (simp add: heap_of_def)
  from ordered_but_after_update[OF w i(1), of e] i(2)
  have "ordered_but (expiries (heap_of t1)) (length (fst (heap_of t1))) i" "indexed (heap_of t1)"
    by (simp_all add: heap_of_def assms(3,4))
  from heap_Fix_wf[OF this(2) _ this(1)] i(1) obtain hs where
    hs: "heap_Fix (heap_of t1) (int i) = Inr hs" "heap_wf hs"
    "mset (fst hs) = mset (expHeap t1)" "data_of (snd hs) = data_of (store t1)"
    by (auto simp: assms(3))
  from hs(3) have "set (fst hs) = set (expHeap t)"
    by (metis set_mset_mset assms(3))
  with hs show ?thesis by (intro exI[of _ hs]) (simp add: do_Fix_def i(3))
qed

lemma heap_wf_store_cong:
  assumes "heap_wf (h, m)" "\<forall>a\<in>set h. ExpiresAt (m' a) = ExpiresAt (m a) \<and> index (m' a) = index (m a)"
  shows "heap_wf (h, m')"
  using heap_wf_cong[OF assms(2)] assms(1) by simp

lemma data_of_funs:
  assumes "data_of m' = data_of m"
  shows "(\<lambda>a. Key (m' a)) = (\<lambda>a. Key (m a))" "(\<lambda>a. ExpiresAt (m' a)) = (\<lambda>a. ExpiresAt (m a))"
  using data_of_fields[OF assms] by auto

lemma consistent_made_permanent:
  assumes c: "consistent t" and k: "items t key = Some a"
    and hs: "heap_wf hs" "set (fst hs) = set (expHeap t) - {a}" "data_of (snd hs) = data_of (store t)"
    and t': "items t' = items t" "nxt t' = nxt t" "expHeap t' = fst hs"
      "store t' = (snd hs)(a := (snd hs a)\<lparr>ExpiresAt := ElementPermanent\<rparr>)"
  shows "consistent t'"
proof -
  have w: "heap_wf (heap_of t')"
  proof -
    have "heap_wf (fst hs, snd hs)" using hs(1) by simp
    then have "heap_wf (fst hs, store t')"
      by (rule heap_wf_store_cong) (use hs(2) in \<open>auto simp: t'(4)\<close>)
    then show ?thesis by (simp add: heap_of_def t'(3))
  qed
  have K: "Key (store t' b) = Key (store t b)" for b
    using data_of_fields(1)[OF hs(3), of b] by (auto simp: t'(4))
  have E: "ExpiresAt (store t' b) = (if b = a then ElementPermanent else ExpiresAt (store t b))" for b
    using data_of_fields(3)[OF hs(3), of b] by (auto simp: t'(4))
  from c have l: "linked (items t) (nxt t) (set (expHeap t))
        (\<lambda>a. Key (store t a)) (\<lambda>a. ExpiresAt (store t a))"
    by (simp add: consistent_def)
  have "linked (items t') (nxt t') (set (expHeap t'))
        (\<lambda>a. Key (store t' a)) (\<lambda>a. ExpiresAt (store t' a))"
    using l k unfolding linked_def t'(1,2,3) hs(2) K E by auto
  with w show ?thesis by (simp add: consistent_def)
qed

lemma MakePermanent_main_consistent:
  assumes "consistent t"
  shows "\<exists>t' b. MakePermanent_main t key = Inr (t', b) \<and> consistent t'"
proof (cases "items t key")
  case None
  with assms show ?thesis by (auto simp: MakePermanent_main_def)
next
  case (Some a)
  show ?thesis
  proof (cases "ExpiresAt (store t a) = ElementPermanent")
    case True
    with Some assms MakePermanent_already[of t key a] show ?thesis by auto
  next
    case False
    from consistent_tracked[OF assms Some False] have tr: "tracked t a" by simp
    from assms have w: "heap_wf (heap_of t)" by (simp add: consistent_def)
    from take_out[OF w tr] obtain hs where
      r: "do_Remove t (index (store t a)) = Inr (with_heap t hs)" and
      hs: "heap_wf hs" "set (fst hs) = set (expHeap t) - {a}" "data_of (snd hs) = data_of (store t)"
      by blast
    define t' where "t' = set_ExpiresAt ((with_heap t hs)\<lparr>stats_permanent := stats_permanent (with_heap t hs) + 1\<rparr>) a ElementPermanent"
    have "MakePermanent_main t key = Inr (t', True)"
      using Some False tr r by (simp add: MakePermanent_main_def t'_def tracked_def)
    moreover have "consistent t'"
      by (rule consistent_made_permanent[OF assms Some hs])
        (simp_all add: t'_def set_ExpiresAt_def with_heap_def)
    ultimately show ?thesis by blast
  qed
qed


lemma consistent_relink:
  assumes c: "consistent t" and k: "items t key = Some a"
    and hs: "heap_wf hs" "set (fst hs) - {a} = set (expHeap t) - {a}"
      "a \<in> set (fst hs) \<longleftrightarrow> ExpiresAt (snd hs a) \<noteq> ElementPermanent"
    and K: "\<And>b. Key (snd hs b) = Key (store t b)"
    and E: "\<And>b. b \<noteq> a \<Longrightarrow> ExpiresAt (snd hs b) = ExpiresAt (store t b)"
    and t': "items t' = items t" "nxt t' = nxt t" "expHeap t' = fst hs" "store t' = snd hs"
  shows "consistent t'"
proof -
  from c have l: "linked (items t) (nxt t) (set (expHeap t))
        (\<lambda>a. Key (store t a)) (\<lambda>a. ExpiresAt (store t a))"
    by (simp add: consistent_def)
  have in_iff: "b \<in> set (fst hs) \<longleftrightarrow> b \<in> set (expHeap t)" if "b \<noteq> a" for b
    using hs(2) that by blast
  have "linked (items t') (nxt t') (set (expHeap t'))
        (\<lambda>a. Key (store t' a)) (\<lambda>a. ExpiresAt (store t' a))"
    unfolding linked_def t' K
  proof (intro conjI allI ballI impI)
    fix k' b assume "items t k' = Some b"
    with l show "Key (store t b) = k'" "b < nxt t" by (auto simp: linked_def)
  next
    fix b assume b: "b \<in> set (fst hs)"
    show "b < nxt t" "items t (Key (store t b)) = Some b"
    proof -
      have "b < nxt t \<and> items t (Key (store t b)) = Some b"
      proof (cases "b = a")
        case True
        with l k show ?thesis by (auto simp: linked_def)
      next
        case False
        with b in_iff l show ?thesis by (auto simp: linked_def)
      qed
      then show "b < nxt t" "items t (Key (store t b)) = Some b" by simp_all
    qed
  next
    fix k' b assume kb: "items t k' = Some b"
    show "b \<in> set (fst hs) \<longleftrightarrow> ExpiresAt (snd hs b) \<noteq> ElementPermanent"
    proof (cases "b = a")
      case True
      with hs(3) show ?thesis by simp
    next
      case False
      with kb l in_iff E show ?thesis by (auto simp: linked_def)
    qed
  qed
  with hs(1) show ?thesis by (simp add: consistent_def heap_of_def t')
qed

lemma consistent_deleted:
  assumes c: "consistent t" and k: "items t key = Some a"
    and hs: "heap_wf hs" "set (fst hs) = set (expHeap t) - {a}"
      "data_of (snd hs) = data_of (store t)"
    and t': "items t' = (items t)(key := None)" "nxt t' = nxt t" "expHeap t' = fst hs"
      "store t' = snd hs"
  shows "consistent t'"
proof -
  from c have l: "linked (items t) (nxt t) (set (expHeap t))
        (\<lambda>a. Key (store t a)) (\<lambda>a. ExpiresAt (store t a))"
    by (simp add: consistent_def)
  have ka: "Key (store t a) = key" using l k by (auto simp: linked_def)
  have "linked (items t') (nxt t') (set (expHeap t'))
        (\<lambda>a. Key (store t' a)) (\<lambda>a. ExpiresAt (store t' a))"
    unfolding linked_def t' hs(2) data_of_funs[OF hs(3)]
  proof (intro conjI allI ballI impI)
    fix k' b assume "((items t)(key := None)) k' = Some b"
    with l show "Key (store t b) = k'" "b < nxt t" by (auto simp: linked_def split: if_splits)
  next
    fix b assume b: "b \<in> set (expHeap t) - {a}"
    with l have 1: "b < nxt t" "items t (Key (store t b)) = Some b" by (auto simp: linked_def)
    then show "b < nxt t" by simp
    have "Key (store t b) \<noteq> key" using 1(2) k b by auto
    with 1 show "((items t)(key := None)) (Key (store t b)) = Some b" by simp
  next
    fix k' b assume kb: "((items t)(key := None)) k' = Some b"
    then have k': "k' \<noteq> key" "items t k' = Some b" by (auto split: if_splits)
    have "Key (store t b) = k'" using l k'(2) unfolding linked_def by blast
    with k'(1) ka have "b \<noteq> a" by auto
    with k' l show "b \<in> set (expHeap t) - {a} \<longleftrightarrow> ExpiresAt (store t b) \<noteq> ElementPermanent"
      by (auto simp: linked_def)
  qed
  with hs(1) show ?thesis by (simp add: consistent_def heap_of_def t')
qed

lemma consistent_added:
  assumes c: "consistent t" and k: "items t key = None"
    and hs: "heap_wf hs" "set (fst hs) - {nxt t} = set (expHeap t)"
      "nxt t \<in> set (fst hs) \<longleftrightarrow> exp \<noteq> ElementPermanent"
      "data_of (snd hs) =
         data_of ((store t)(nxt t := \<lparr>Key = key, Value = val, ExpiresAt = exp, index = 0\<rparr>))"
    and t': "items t' = (items t)(key \<mapsto> nxt t)" "nxt t' = nxt t + 1" "expHeap t' = fst hs"
      "store t' = snd hs"
  shows "consistent t'"
proof -
  from c have l: "linked (items t) (nxt t) (set (expHeap t))
        (\<lambda>a. Key (store t a)) (\<lambda>a. ExpiresAt (store t a))"
    by (simp add: consistent_def)
  have K: "Key (snd hs b) = (if b = nxt t then key else Key (store t b))"
    and E: "ExpiresAt (snd hs b) = (if b = nxt t then exp else ExpiresAt (store t b))" for b
    using data_of_fields(1,3)[OF hs(4), of b] by auto
  have fresh: "b < nxt t" if "items t k' = Some b" for k' b
    using l that by (auto simp: linked_def)
  have in_iff: "b \<in> set (fst hs) \<longleftrightarrow> b \<in> set (expHeap t)" if "b \<noteq> nxt t" for b
    using hs(2) that by blast
  have "linked (items t') (nxt t') (set (expHeap t'))
        (\<lambda>a. Key (store t' a)) (\<lambda>a. ExpiresAt (store t' a))"
    unfolding linked_def t' K E
  proof (intro conjI allI ballI impI)
    fix k' b assume kb: "((items t)(key \<mapsto> nxt t)) k' = Some b"
    show "(if b = nxt t then key else Key (store t b)) = k'" "b < nxt t + 1"
    proof -
      have "(if b = nxt t then key else Key (store t b)) = k' \<and> b < nxt t + 1"
      proof (cases "k' = key")
        case True
        with kb show ?thesis by auto
      next
        case False
        with kb have i: "items t k' = Some b" by simp
        from fresh[OF i] have "b < nxt t" .
        moreover have "Key (store t b) = k'" using l i unfolding linked_def by blast
        ultimately show ?thesis by simp
      qed
      then show "(if b = nxt t then key else Key (store t b)) = k'" "b < nxt t + 1"
        by simp_all
    qed
  next
    fix b assume b: "b \<in> set (fst hs)"
    show "b < nxt t + 1"
      "((items t)(key \<mapsto> nxt t)) (if b = nxt t then key else Key (store t b)) = Some b"
    proof -
      have "b < nxt t + 1 \<and>
        ((items t)(key \<mapsto> nxt t)) (if b = nxt t then key else Key (store t b)) = Some b"
      proof (cases "b = nxt t")
        case True
        then show ?thesis by simp
      next
        case False
        with b in_iff have "b \<in> set (expHeap t)" by simp
        with l have 1: "b < nxt t" "items t (Key (store t b)) = Some b" by (auto simp: linked_def)
        with k have "Key (store t b) \<noteq> key" by auto
        with 1 False show ?thesis by simp
      qed
      then show "b < nxt t + 1"
        "((items t)(key \<mapsto> nxt t)) (if b = nxt t then key else Key (store t b)) = Some b"
        by simp_all
    qed
  next
    fix k' b assume kb: "((items t)(key \<mapsto> nxt t)) k' = Some b"
    show "b \<in> set (fst hs) \<longleftrightarrow> (if b = nxt t then exp else ExpiresAt (store t b)) \<noteq> ElementPermanent"
    proof (cases "b = nxt t")
      case True
      with hs(3) show ?thesis by simp
    next
      case False
      with kb have "items t k' = Some b" by (auto split: if_splits)
      with False l in_iff show ?thesis by (auto simp: linked_def)
    qed
  qed
  with hs(1) show ?thesis by (simp add: consistent_def heap_of_def t')
qed

lemma consistent_fields:
  assumes "consistent t" "items t' = items t" "nxt t' = nxt t" "expHeap t' = expHeap t"
    "store t' = store t"
  shows "consistent t'"
  using assms by (simp add: consistent_def heap_of_def)

lemma consistent_outside:
  assumes "consistent t"
  shows "nxt t \<notin> set (expHeap t)" and "items t k = Some a \<Longrightarrow> a \<noteq> nxt t"
  using assms by (auto simp: consistent_def linked_def)

lemma consistent_permanent_outside:
  assumes "consistent t" "items t k = Some a" "ExpiresAt (store t a) = ElementPermanent"
  shows "a \<notin> set (expHeap t)"
  using assms by (auto simp: consistent_def linked_def)

lemma consistent_set_Value:
  assumes "consistent t"
  shows "consistent (set_Value t a v)"
proof -
  from assms have w: "heap_wf (expHeap t, store t)" by (simp add: consistent_def heap_of_def)
  have "heap_wf (expHeap t, (store t)(a := (store t a)\<lparr>Value := v\<rparr>))"
    by (rule heap_wf_store_cong[OF w]) simp
  moreover have "(\<lambda>b. Key (((store t)(a := (store t a)\<lparr>Value := v\<rparr>)) b)) = (\<lambda>b. Key (store t b))"
    "(\<lambda>b. ExpiresAt (((store t)(a := (store t a)\<lparr>Value := v\<rparr>)) b)) = (\<lambda>b. ExpiresAt (store t b))"
    by (auto simp: fun_eq_iff)
  ultimately show ?thesis
    using assms by (simp add: consistent_def heap_of_def set_Value_def)
qed

lemma tracked_fields:
  "expHeap t' = expHeap t \<Longrightarrow> store t' = store t \<Longrightarrow> tracked t' a = tracked t a"
  by (simp add: tracked_def)

lemma tracked_index:
  "tracked t a \<Longrightarrow> 0 \<le> index (store t a)"
  by (simp add: tracked_def)

lemma do_Remove_heap:
  assumes "do_Remove t i = Inr (with_heap t hs)" "heap_of t1 = heap_of t"
  shows "do_Remove t1 i = Inr (with_heap t1 hs)"
proof -
  from assms(1) obtain hs' x where 1: "heap_Remove (heap_of t) i = Inr (hs', x)"
    and 2: "with_heap t hs' = with_heap t hs"
    by (auto simp: do_Remove_def split: sum.splits prod.splits)
  from 2 have "heap_of (with_heap t hs') = heap_of (with_heap t hs)" by simp
  then have "hs' = hs" by (simp only: heap_of_simps(3))
  with 1 show ?thesis by (simp add: do_Remove_def assms(2))
qed

section \<open>Package \<open>main\<close> keeps the map consistent\<close>

lemma New_main_consistent: "consistent (New_main m cb w)"
  by (simp add: consistent_def heap_of_def New_main_def heap_Init_empty heap_wf_def
      heap_ordered_def indexed_def linked_def)

lemma consistent_new_permanent:
  assumes c: "consistent t" and k: "items t key = None"
    and t': "items t' = (items t)(key \<mapsto> nxt t)" "nxt t' = nxt t + 1" "expHeap t' = expHeap t"
      "store t' = (store t)(nxt t := \<lparr>Key = key, Value = val, ExpiresAt = ElementPermanent, index = 0\<rparr>)"
  shows "consistent t'"
proof -
  from c have w: "heap_wf (expHeap t, store t)" by (simp add: consistent_def heap_of_def)
  note out = consistent_outside(1)[OF c]
  have w': "heap_wf (expHeap t, store t')"
    by (rule heap_wf_store_cong[OF w]) (use out in \<open>auto simp: t'(4)\<close>)
  show ?thesis
    by (rule consistent_added[OF c k, where hs = "(expHeap t, store t')" and exp = ElementPermanent
          and val = val])
      (use w' out in \<open>simp_all add: t'\<close>)
qed

lemma SetPermanent_main_existing:
  "items t key = Some a \<Longrightarrow>
     SetPermanent_main t key val = drop_result (MakePermanent_main (set_Value t a val) key)"
  by (simp add: SetPermanent_main_def MakePermanent_main_def drop_result_def Let_def set_Value_def
      split: sum.splits)

lemma SetPermanent_main_consistent:
  assumes "consistent t"
  shows "\<exists>t'. SetPermanent_main t key val = Inr t' \<and> consistent t'"
proof (cases "items t key")
  case None
  define t' where "t' = (new_element t key val ElementPermanent)
      \<lparr>stats_added := stats_added t + 1, stats_permanent := stats_permanent t + 1\<rparr>"
  have "SetPermanent_main t key val = Inr t'"
    using None by (simp add: SetPermanent_main_def Let_def t'_def new_element_def)
  moreover have "consistent t'"
    by (rule consistent_new_permanent[OF assms None, where val = val])
      (simp_all add: t'_def new_element_def)
  ultimately show ?thesis by blast
next
  case (Some a)
  from MakePermanent_main_consistent[OF consistent_set_Value[OF assms], of a val key]
  show ?thesis by (auto simp: SetPermanent_main_existing[OF Some] drop_result_def)
qed

lemma consistent_remove_key:
  assumes c: "consistent t" and k: "items t key = Some a"
  shows "\<exists>hs. (if ExpiresAt (store t a) \<noteq> ElementPermanent \<and> index (store t a) \<ge> 0
                then do_Remove t (index (store t a)) else Inr t) = Inr (with_heap t hs) \<and>
           heap_wf hs \<and> set (fst hs) = set (expHeap t) - {a} \<and>
           data_of (snd hs) = data_of (store t)"
proof (cases "ExpiresAt (store t a) = ElementPermanent")
  case True
  from c have w: "heap_wf (heap_of t)" by (simp add: consistent_def)
  have "with_heap t (heap_of t) = t" by (simp add: with_heap_def heap_of_def)
  with True w consistent_permanent_outside[OF c k True] show ?thesis
    by (intro exI[of _ "heap_of t"]) simp
next
  case False
  from consistent_tracked(1)[OF c k False] have tr: "tracked t a" .
  from c have w: "heap_wf (heap_of t)" by (simp add: consistent_def)
  from take_out[OF w tr] False tracked_index[OF tr] show ?thesis by simp
qed

lemma Remove_main_consistent:
  assumes "consistent t"
  shows "\<exists>t'. Remove_main t key = Inr t' \<and> consistent t'"
proof (cases "items t key")
  case None
  with assms show ?thesis by (simp add: Remove_main_def)
next
  case (Some a)
  define t1 where "t1 = t\<lparr>items := (items t)(key := None)\<rparr>"
  from consistent_remove_key[OF assms Some] obtain hs where
    r: "(if ExpiresAt (store t a) \<noteq> ElementPermanent \<and> index (store t a) \<ge> 0
         then do_Remove t (index (store t a)) else Inr t) = Inr (with_heap t hs)" and
    hs: "heap_wf hs" "set (fst hs) = set (expHeap t) - {a}" "data_of (snd hs) = data_of (store t)"
    by blast
  have r1: "(if ExpiresAt (store t a) \<noteq> ElementPermanent \<and> index (store t a) \<ge> 0
         then do_Remove t1 (index (store t a)) else Inr t1) = Inr (with_heap t1 hs)"
  proof (cases "ExpiresAt (store t a) \<noteq> ElementPermanent \<and> index (store t a) \<ge> 0")
    case True
    with r have "do_Remove t (index (store t a)) = Inr (with_heap t hs)" by simp
    from do_Remove_heap[OF this, of t1] True show ?thesis by (simp add: t1_def heap_of_def)
  next
    case False
    with r have "t = with_heap t hs" by simp
    then have "heap_of t = heap_of (with_heap t hs)" by simp
    then have "hs = heap_of t" by (simp only: heap_of_simps(3))
    with False show ?thesis by (auto simp: with_heap_def heap_of_def t1_def)
  qed
  define t' where "t' = (with_heap t1 hs)\<lparr>stats_removed := stats_removed (with_heap t1 hs) + 1\<rparr>"
  have "Remove_main t key = Inr t'"
    using Some r1 by (simp add: Remove_main_def Let_def t'_def t1_def[symmetric])
  moreover have "consistent t'"
    by (rule consistent_deleted[OF assms Some hs]) (simp_all add: t'_def t1_def with_heap_def)
  ultimately show ?thesis by blast
qed

lemma consistent_signalCleaner: "consistent (signalCleaner t) = consistent t"
  by (simp add: consistent_def heap_of_def signalCleaner_def)

lemma consistent_reschedule:
  assumes c: "consistent t" and k: "items t key = Some a"
    and x: "ExpiresAt (store t a) \<noteq> ElementPermanent" and e: "e \<noteq> ElementPermanent"
  shows "\<exists>t'. do_Fix (set_ExpiresAt t a e) (index (store t a)) = Inr t' \<and> consistent t' \<and>
           stats_permanent t' = stats_permanent t"
proof -
  define t1 where "t1 = set_ExpiresAt t a e"
  from consistent_tracked(1)[OF c k x] have tr: "tracked t a" .
  from c have w: "heap_wf (heap_of t)" by (simp add: consistent_def)
  have f: "expHeap t1 = expHeap t" "store t1 = (store t)(a := (store t a)\<lparr>ExpiresAt := e\<rparr>)"
    "items t1 = items t" "nxt t1 = nxt t"
    by (simp_all add: t1_def set_ExpiresAt_def)
  from refix[OF w tr f(1,2)] obtain hs where
    r: "do_Fix t1 (index (store t a)) = Inr (with_heap t1 hs)" and
    hs: "heap_wf hs" "set (fst hs) = set (expHeap t)" "data_of (snd hs) = data_of (store t1)"
    by blast
  have a: "a \<in> set (expHeap t)" using c k x by (auto simp: consistent_def linked_def)
  have "consistent (with_heap t1 hs)"
  proof (rule consistent_relink[OF c k hs(1)])
    show "set (fst hs) - {a} = set (expHeap t) - {a}" by (simp add: hs(2))
    show "(a \<in> set (fst hs)) = (ExpiresAt (snd hs a) \<noteq> ElementPermanent)"
      using a e data_of_fields(3)[OF hs(3), of a] by (simp add: hs(2) f(2))
    show "Key (snd hs b) = Key (store t b)" for b
      using data_of_fields(1)[OF hs(3), of b] by (simp add: f(2))
    show "ExpiresAt (snd hs b) = ExpiresAt (store t b)" if "b \<noteq> a" for b
      using data_of_fields(3)[OF hs(3), of b] that by (simp add: f(2))
  qed (simp_all add: f with_heap_def)
  with r show ?thesis by (auto simp: t1_def)
qed

lemma consistent_schedule:
  assumes c: "consistent t" and k: "items t key = Some a"
    and x: "ExpiresAt (store t a) = ElementPermanent" and e: "e \<noteq> ElementPermanent"
  shows "consistent (do_Push (set_ExpiresAt t a e) a)"
proof -
  define t1 where "t1 = set_ExpiresAt t a e"
  have f: "expHeap t1 = expHeap t" "store t1 = (store t)(a := (store t a)\<lparr>ExpiresAt := e\<rparr>)"
    "items t1 = items t" "nxt t1 = nxt t"
    by (simp_all add: t1_def set_ExpiresAt_def)
  note out = consistent_permanent_outside[OF c k x]
  from c have w: "heap_wf (expHeap t, store t)" by (simp add: consistent_def heap_of_def)
  have "heap_wf (expHeap t, store t1)"
    by (rule heap_wf_store_cong[OF w]) (use out in \<open>auto simp: f(2)\<close>)
  then have w1: "heap_wf (heap_of t1)" by (simp add: heap_of_def f(1))
  from put_in[OF w1, of a] out obtain hs where
    r: "do_Push t1 a = with_heap t1 hs" and
    hs: "heap_wf hs" "set (fst hs) = insert a (set (expHeap t))"
      "data_of (snd hs) = data_of (store t1)"
    by (auto simp: f(1))
  have "consistent (with_heap t1 hs)"
  proof (rule consistent_relink[OF c k hs(1)])
    show "set (fst hs) - {a} = set (expHeap t) - {a}" by (simp add: hs(2))
    show "(a \<in> set (fst hs)) = (ExpiresAt (snd hs a) \<noteq> ElementPermanent)"
      using e data_of_fields(3)[OF hs(3), of a] by (simp add: hs(2) f(2))
    show "Key (snd hs b) = Key (store t b)" for b
      using data_of_fields(1)[OF hs(3), of b] by (simp add: f(2))
    show "ExpiresAt (snd hs b) = ExpiresAt (store t b)" if "b \<noteq> a" for b
      using data_of_fields(3)[OF hs(3), of b] that by (simp add: f(2))
  qed (simp_all add: f with_heap_def)
  with r show ?thesis by (simp add: t1_def)
qed

lemma SetExpiry_main_zero:
  "IsZero e \<Longrightarrow> SetExpiry_main t key e now = MakePermanent_main t key"
  by (auto simp: SetExpiry_main_def MakePermanent_main_def Let_def split: option.splits)

lemma SetExpiry_main_consistent:
  assumes c: "consistent t"
    and e: "UnixNano e \<noteq> ElementPermanent \<or> UnixNano e \<le> UnixNano now"
  shows "\<exists>t' b. SetExpiry_main t key e now = Inr (t', b) \<and> consistent t'"
proof (cases "items t key")
  case None
  with c SetExpiry_absent[of t key e now] show ?thesis by auto
next
  case (Some a)
  consider (zero) "IsZero e" | (past) "\<not> IsZero e" "UnixNano e \<le> UnixNano now"
    | (perm) "\<not> IsZero e" "\<not> UnixNano e \<le> UnixNano now"
        "ExpiresAt (store t a) = ElementPermanent"
    | (temp) "\<not> IsZero e" "\<not> UnixNano e \<le> UnixNano now"
        "ExpiresAt (store t a) \<noteq> ElementPermanent"
    by blast
  then show ?thesis
  proof cases
    case zero
    with MakePermanent_main_consistent[OF c, of key] show ?thesis
      by (simp add: SetExpiry_main_zero)
  next
    case past
    from consistent_remove_key[OF c Some] obtain hs where
      r: "(if ExpiresAt (store t a) \<noteq> ElementPermanent \<and> index (store t a) \<ge> 0
         then do_Remove t (index (store t a)) else Inr t) = Inr (with_heap t hs)" and
      hs: "heap_wf hs" "set (fst hs) = set (expHeap t) - {a}"
        "data_of (snd hs) = data_of (store t)"
      by blast
    define t' where "t' = (with_heap t hs)\<lparr>items := (items t)(key := None),
        stats_removed := stats_removed t + 1\<rparr>"
    have "SetExpiry_main t key e now = Inr (t', False)"
      using Some past r by (simp add: SetExpiry_main_def Let_def t'_def)
    moreover have "consistent t'"
      by (rule consistent_deleted[OF c Some hs]) (simp_all add: t'_def with_heap_def)
    ultimately show ?thesis by blast
  next
    case perm
    from perm(2) e have ne: "UnixNano e \<noteq> ElementPermanent" by simp
    define t3 where "t3 = do_Push (set_ExpiresAt t a (UnixNano e)) a"
    have c3: "consistent t3"
      unfolding t3_def by (rule consistent_schedule[OF c Some perm(3) ne])
    have "SetExpiry_main t key e now =
        Inr (if length (expHeap t3) > 0 \<and> expHeap t3 ! 0 = a then signalCleaner t3 else t3, True)"
      using Some perm by (simp add: SetExpiry_main_def Let_def t3_def)
    with c3 show ?thesis by (auto simp: consistent_signalCleaner)
  next
    case temp
    from temp(2) e have ne: "UnixNano e \<noteq> ElementPermanent" by simp
    from consistent_reschedule[OF c Some temp(3) ne] obtain t3 where
      r: "do_Fix (set_ExpiresAt t a (UnixNano e)) (index (store t a)) = Inr t3" and
      c3: "consistent t3" by blast
    from consistent_tracked(1)[OF c Some temp(3)] have i: "0 \<le> index (store t a)"
      by (rule tracked_index)
    have "SetExpiry_main t key e now =
        Inr (if length (expHeap t3) > 0 \<and> expHeap t3 ! 0 = a then signalCleaner t3 else t3, True)"
      using Some temp r i by (simp add: SetExpiry_main_def Let_def)
    with c3 show ?thesis by (auto simp: consistent_signalCleaner)
  qed
qed

lemma consistent_new_temporary:
  assumes c: "consistent t" and k: "items t key = None" and e: "exp \<noteq> ElementPermanent"
  shows "consistent (do_Push (new_element t key val exp) (nxt t))"
proof -
  define t1 where "t1 = new_element t key val exp"
  have f: "expHeap t1 = expHeap t"
    "store t1 = (store t)(nxt t := \<lparr>Key = key, Value = val, ExpiresAt = exp, index = 0\<rparr>)"
    "items t1 = (items t)(key \<mapsto> nxt t)" "nxt t1 = nxt t + 1"
    by (simp_all add: t1_def new_element_def)
  note out = consistent_outside(1)[OF c]
  from c have w: "heap_wf (expHeap t, store t)" by (simp add: consistent_def heap_of_def)
  have "heap_wf (expHeap t, store t1)"
    by (rule heap_wf_store_cong[OF w]) (use out in \<open>auto simp: f(2)\<close>)
  then have w1: "heap_wf (heap_of t1)" by (simp add: heap_of_def f(1))
  from put_in[OF w1, of "nxt t"] out obtain hs where
    r: "do_Push t1 (nxt t) = with_heap t1 hs" and
    hs: "heap_wf hs" "set (fst hs) = insert (nxt t) (set (expHeap t))"
      "data_of (snd hs) = data_of (store t1)"
    by (auto simp: f(1))
  have "consistent (with_heap t1 hs)"
    by (rule consistent_added[OF c k hs(1), where exp = exp and val = val])
      (use out e in \<open>simp_all add: hs f with_heap_def\<close>)
  with r show ?thesis by (simp add: t1_def)
qed

lemma SetTemporary_main_consistent:
  assumes c: "consistent t" and e: "UnixNano e \<noteq> ElementPermanent"
  shows "\<exists>t'. SetTemporary_main t key val e = Inr t' \<and> consistent t'"
proof -
  have "\<exists>t3. (case items t key of
                 Some a \<Rightarrow>
                   let t1 = set_Value t a val in
                   if ExpiresAt (store t1 a) \<noteq> ElementPermanent then
                     let t2 = set_ExpiresAt t1 a (UnixNano e) in
                     if index (store t2 a) \<ge> 0 then do_Fix t2 (index (store t2 a))
                     else Inr (do_Push t2 a)
                   else Inr t1
               | None \<Rightarrow>
                   let t1 = new_element t key val (UnixNano e);
                       t2 = (if UnixNano e \<noteq> ElementPermanent then do_Push t1 (nxt t)
                             else t1\<lparr>stats_permanent := stats_permanent t1 + 1\<rparr>)
                   in Inr (t2\<lparr>stats_added := stats_added t2 + 1\<rparr>)) = Inr t3 \<and> consistent t3"
    (is "\<exists>t3. ?r = Inr t3 \<and> _")
  proof (cases "items t key")
    case None
    define t2 where "t2 = do_Push (new_element t key val (UnixNano e)) (nxt t)"
    have "consistent t2" unfolding t2_def by (rule consistent_new_temporary[OF c None e])
    then have "consistent (t2\<lparr>stats_added := stats_added t2 + 1\<rparr>)"
      by (rule consistent_fields) simp_all
    moreover have "?r = Inr (t2\<lparr>stats_added := stats_added t2 + 1\<rparr>)"
      using None e by (simp add: Let_def t2_def)
    ultimately show ?thesis by blast
  next
    case (Some a)
    define t1 where "t1 = set_Value t a val"
    have c1: "consistent t1" unfolding t1_def by (rule consistent_set_Value[OF c])
    have k1: "items t1 key = Some a" using Some by (simp add: t1_def)
    show ?thesis
    proof (cases "ExpiresAt (store t1 a) = ElementPermanent")
      case True
      with Some c1 show ?thesis by (simp add: Let_def t1_def[symmetric])
    next
      case False
      from consistent_reschedule[OF c1 k1 False e] obtain t3 where
        r: "do_Fix (set_ExpiresAt t1 a (UnixNano e)) (index (store t1 a)) = Inr t3" and
        c3: "consistent t3" by blast
      from consistent_tracked(1)[OF c1 k1 False] have i: "0 \<le> index (store t1 a)"
        by (rule tracked_index)
      have ix: "index (store (set_ExpiresAt t1 a (UnixNano e)) a) = index (store t1 a)"
        by (simp add: set_ExpiresAt_def)
      have "?r = Inr t3"
        using Some False r i ix by (simp add: Let_def t1_def[symmetric])
      with c3 show ?thesis by blast
    qed
  qed
  then obtain t3 where r: "?r = Inr t3" and c3: "consistent t3" by blast
  have "SetTemporary_main t key val e =
      Inr (if length (expHeap t3) > 0 \<and> Some (expHeap t3 ! 0) = items t3 key
           then signalCleaner t3 else t3)"
    using r unfolding SetTemporary_main_def Let_def by simp
  with c3 show ?thesis by (auto simp: consistent_signalCleaner)
qed

lemma SetWithTTL_main_consistent:
  assumes c: "consistent t" and e: "ttl \<le> 0 \<or> UnixNano (Add now ttl) \<noteq> ElementPermanent"
  shows "\<exists>t'. SetWithTTL_main t key val ttl now = Inr t' \<and> consistent t'"
  using SetPermanent_main_consistent[OF c, of key val]
    SetTemporary_main_consistent[OF c, of "Add now ttl" key val] e
  by (auto simp: SetWithTTL_main_def)

lemma RemoveAll_consistent: "consistent (RemoveAll t)"
  by (simp add: consistent_def heap_of_def RemoveAll_def heap_Init_empty heap_wf_def
      heap_ordered_def indexed_def linked_def with_heap_def)

lemma expire_popped_consistent:
  assumes c: "consistent t" and ne: "expHeap t \<noteq> []"
  shows "\<exists>hs. heap_Pop (heap_of t) = Inr (hs, expHeap t ! 0) \<and>
           consistent (expire_popped t hs (expHeap t ! 0)) \<and>
           length (fst hs) < length (expHeap t)"
proof -
  define el where "el = expHeap t ! 0"
  from c have w: "heap_ordered (heap_of t)" "indexed (heap_of t)"
    by (simp_all add: consistent_def heap_wf_def)
  from ne have ne': "fst (heap_of t) \<noteq> []" by (simp add: heap_of_def)
  from heap_Pop_spec[OF w(1) ne'] obtain hs where
    hs: "heap_Pop (heap_of t) = Inr (hs, el)" "heap_ordered hs"
      "mset (fst hs) = mset (expHeap t) - {# el #}"
      "data_of (snd hs) = data_of (store t)"
    by (auto simp: heap_of_def el_def)
  from heap_Pop_indexed[OF w(2) hs(1)] hs(2) have wf: "heap_wf hs" by (simp add: heap_wf_def)
  have d: "distinct (expHeap t)" using w(2) by (simp add: indexed_def heap_of_def)
  from removed_from_distinct[OF d hs(3)] have s: "set (fst hs) = set (expHeap t) - {el}" by simp
  have el_in: "el \<in> set (expHeap t)" using ne by (simp add: el_def)
  then have k: "items t (Key (store t el)) = Some el"
    using c by (auto simp: consistent_def linked_def)
  have key: "Key (snd hs el) = Key (store t el)" using data_of_fields(1)[OF hs(4)] .
  have "consistent (expire_popped t hs el)"
    by (rule consistent_deleted[OF c k wf s hs(4)])
      (simp_all add: expire_popped_def Let_def with_heap_def key)
  moreover have "length (fst hs) < length (expHeap t)"
  proof -
    have "mset (expHeap t) = {#el#} + mset (fst hs)" using hs(3) el_in by simp
    then have "size (mset (expHeap t)) = size ({#el#} + mset (fst hs))" by simp
    then show ?thesis by simp
  qed
  ultimately show ?thesis using hs(1) by (auto simp: el_def)
qed

lemma drain_consistent:
  "consistent t \<Longrightarrow> \<exists>t' ex. drain t now acc = Inr (t', ex) \<and> consistent t'"
proof (induction "length (expHeap t)" arbitrary: t acc rule: less_induct)
  case less
  show ?case
  proof (cases "length (expHeap t) > 0 \<and> ExpiresAt (store t (expHeap t ! 0)) \<le> now")
    case False
    from drain_stop[OF False] less.prems show ?thesis by blast
  next
    case True
    then have ne: "expHeap t \<noteq> []" by auto
    from expire_popped_consistent[OF less.prems ne] obtain hs where
      hs: "heap_Pop (heap_of t) = Inr (hs, expHeap t ! 0)"
        "consistent (expire_popped t hs (expHeap t ! 0))"
        "length (fst hs) < length (expHeap t)"
      by blast
    define t1 where "t1 = expire_popped t hs (expHeap t ! 0)"
    have len: "length (expHeap t1) < length (expHeap t)"
      using hs(3) by (simp add: t1_def expire_popped_def Let_def with_heap_def)
    have step: "drain t now acc = drain t1 now (acc @ [expHeap t ! 0])"
      using True hs(1) by (subst drain_unfold) (simp add: t1_def)
    from less.hyps[OF len, of "acc @ [expHeap t ! 0]"] hs(2) step show ?thesis
      by (simp add: t1_def)
  qed
qed

lemma dispatch_main_consistent:
  "dispatch_main t els = Inr (t', evs) \<Longrightarrow> consistent t \<Longrightarrow> consistent t'"
proof (induction els arbitrary: t t' evs)
  case Nil
  then show ?case by simp
next
  case (Cons el els)
  have q: "consistent (t\<lparr>expireQueue := expireQueue t @ [el]\<rparr>)"
    by (rule consistent_fields[OF Cons.prems(2)]) simp_all
  from Cons.prems(1) Cons.IH[OF _ q] Cons.IH[OF _ Cons.prems(2)] show ?case
    by (auto split: if_splits sum.splits option.splits)
qed

lemma dispatch_main_panic:
  "dispatch_main t els = Inl p \<Longrightarrow> p = NilFuncCall \<and> onExpire t = None"
proof (induction els arbitrary: t)
  case Nil
  then show ?case by simp
next
  case (Cons el els)
  from Cons.prems Cons.IH[of "t\<lparr>expireQueue := expireQueue t @ [el]\<rparr>"] Cons.IH[of t]
  show ?case
    by (auto split: if_splits sum.splits option.splits)
qed

lemma cleaner_pass_main_consistent:
  assumes "consistent t"
  shows "(\<exists>t' evs. cleaner_pass_main t now1 now2 = Inr (t', evs) \<and> consistent t') \<or>
         (cleaner_pass_main t now1 now2 = Inl NilFuncCall \<and> onExpire t = None)"
proof -
  from drain_consistent[OF assms, of "UnixNano now2" "[]"] obtain t1 ex where
    d: "drain t (UnixNano now2) [] = Inr (t1, ex)" and c1: "consistent t1" by blast
  show ?thesis
  proof (cases "dispatch_main t1 ex")
    case (Inl p)
    from assms have "heap_ordered (heap_of t)" by (simp add: consistent_def heap_wf_def)
    from drain_spec[OF this, of "UnixNano now2" "[]"] d have "onExpire t1 = onExpire t"
      by (auto simp: drained_step_def)
    with dispatch_main_panic[OF Inl]
    have "p = NilFuncCall" "onExpire t = None" by simp_all
    with Inl d assms show ?thesis
      by (auto simp: cleaner_pass_main_def Let_def)
  next
    case (Inr r)
    obtain t2 evs where r: "r = (t2, evs)" by (cases r)
    from dispatch_main_consistent[OF Inr[unfolded r] c1] have "consistent t2" .
    with Inr r d assms show ?thesis
      by (auto simp: cleaner_pass_main_def Let_def)
  qed
qed

lemma apply_main_consistent:
  assumes "consistent t" "epoch_free x"
  shows "(\<exists>t'. apply_main t x = Inr t' \<and> consistent t') \<or>
         (apply_main t x = Inl NilFuncCall \<and> onExpire t = None \<and>
          (\<exists>now1 now2. x = Op_Cleaner now1 now2))"
proof (cases x)
  case (Op_SetPermanent k v)
  with SetPermanent_main_consistent[OF assms(1), of k v] show ?thesis by simp
next
  case (Op_SetTemporary k v e)
  with SetTemporary_main_consistent[OF assms(1), of e k v] assms(2) show ?thesis by simp
next
  case (Op_SetWithTTL k v d now)
  with SetWithTTL_main_consistent[OF assms(1), of d now k v] assms(2) show ?thesis by simp
next
  case (Op_Remove k)
  with Remove_main_consistent[OF assms(1), of k] show ?thesis by simp
next
  case Op_RemoveAll
  with RemoveAll_consistent[of t] show ?thesis by simp
next
  case (Op_MakePermanent k)
  with MakePermanent_main_consistent[OF assms(1), of k] show ?thesis
    by (auto simp: drop_result_def)
next
  case (Op_SetExpiry k e now)
  with SetExpiry_main_consistent[OF assms(1), of e now k] assms(2) show ?thesis
    by (auto simp: drop_result_def)
next
  case (Op_Get k)
  with assms(1) show ?thesis by (simp add: Get_frame)
next
  case (Op_Cleaner now1 now2)
  with cleaner_pass_main_consistent[OF assms(1), of now1 now2] show ?thesis
    by (auto simp: drop_result_def)
qed

lemma run_main_consistent:
  "consistent t \<Longrightarrow> list_all epoch_free xs \<Longrightarrow> run_main t xs = Inr t' \<Longrightarrow> consistent t'"
proof (induction xs arbitrary: t)
  case Nil
  then show ?case by simp
next
  case (Cons x xs)
  from Cons.prems(2) have x: "epoch_free x" and xs: "list_all epoch_free xs" by simp_all
  from Cons.prems(3) obtain t1 where a: "apply_main t x = Inr t1" and r: "run_main t1 xs = Inr t'"
    by (auto split: sum.splits)
  from apply_main_consistent[OF Cons.prems(1) x] a have "consistent t1" by auto
  from Cons.IH[OF this xs r] show ?case .
qed

lemma run_main_panic:
  "consistent t \<Longrightarrow> list_all epoch_free xs \<Longrightarrow> run_main t xs = Inl p \<Longrightarrow> p = NilFuncCall"
proof (induction xs arbitrary: t)
  case Nil
  then show ?case by simp
next
  case (Cons x xs)
  from Cons.prems(2) have x: "epoch_free x" and xs: "list_all epoch_free xs" by simp_all
  show ?case
  proof (cases "apply_main t x")
    case (Inl q)
    with Cons.prems(3) apply_main_consistent[OF Cons.prems(1) x] show ?thesis by auto
  next
    case (Inr t1)
    with apply_main_consistent[OF Cons.prems(1) x] have c1: "consistent t1" by auto
    from Inr Cons.prems(3) have r: "run_main t1 xs = Inl p" by simp
    from Cons.IH[OF c1 xs r] show ?thesis .
  qed
qed

text \<open>
  Every map that package \<open>main\<close> builds from \<open>New\<close> by such calls and turns of the cleaner is
  consistent, so its heap is ordered and each of its elements is placed as
  \<open>entry_consistent\<close> asks.
\<close>

lemma reachable_main_consistent:
  "list_all epoch_free xs \<Longrightarrow> run_main (New_main m cb w) xs = Inr t \<Longrightarrow> consistent t"
  by (rule run_main_consistent[OF New_main_consistent])

lemma consistent_heap_ordered: "consistent t \<Longrightarrow> heap_ordered (heap_of t)"
  by (simp add: consistent_def heap_wf_def)

lemma consistent_entry_consistent:
  assumes "consistent t" "items t k = Some a"
  shows "entry_consistent t a"
proof (cases "ExpiresAt (store t a) = ElementPermanent")
  case True
  from consistent_permanent_outside[OF assms True] assms(1) True show ?thesis
    by (simp add: entry_consistent_def consistent_def heap_wf_def indexed_def)
next
  case False
  from consistent_tracked(1,2)[OF assms False] False show ?thesis
    by (simp add: entry_consistent_def)
qed

end
